theory Spec2Isabelle
  imports Main "HOL-Library.AList" "HOL-Library.Multiset"
begin

section \<open>JavaScript values, strings and containers\<close>

text \<open>
  Strings are \<^typ>\<open>string\<close>, one \<^typ>\<open>char\<close> per code unit (code units below 256).
  A field typed \<open>unknown\<close> in the source holds a \<open>json\<close> value; an absent field
  (\<open>undefined\<close>) is \<open>None\<close>. Numbers are restricted to integers.
\<close>

datatype json =
    JNull
  | JBool bool
  | JNum int
  | JStr string
  | JArr "json list"
  | JObj "(string \<times> json) list"

text \<open>Truthiness of a value that is present (\<open>!v\<close> is its negation).\<close>

fun truthy :: "json \<Rightarrow> bool" where
  "truthy JNull = False"
| "truthy (JBool b) = b"
| "truthy (JNum n) = (n \<noteq> 0)"
| "truthy (JStr s) = (s \<noteq> [])"
| "truthy (JArr xs) = True"
| "truthy (JObj kvs) = True"

text \<open>\<open>String.prototype.trim\<close>: white space and line terminators below code unit 256.\<close>

definition is_space :: "char \<Rightarrow> bool" where
  "is_space c \<longleftrightarrow> (of_char c :: nat) \<in> {9, 10, 11, 12, 13, 32, 160}"

definition trim :: "string \<Rightarrow> string" where
  "trim s = rev (dropWhile is_space (rev (dropWhile is_space s)))"

text \<open>\<open>typeof v === "string" ? v.trim() : ""\<close>, for an optional field.\<close>

fun trimmed_string :: "json option \<Rightarrow> string" where
  "trimmed_string (Some (JStr s)) = trim s"
| "trimmed_string _ = []"

text \<open>\<open>String(n)\<close> for a natural number and for an integer.\<close>

fun string_of_nat :: "nat \<Rightarrow> string" where
  "string_of_nat n =
     (if n < 10 then [''0123456789'' ! n]
      else string_of_nat (n div 10) @ [''0123456789'' ! (n mod 10)])"

declare string_of_nat.simps [simp del]

definition string_of_int :: "int \<Rightarrow> string" where
  "string_of_int i = (if i < 0 then CHR ''-'' # string_of_nat (nat (- i)) else string_of_nat (nat i))"

text \<open>The id pattern \<open>/^[A-Za-z0-9][A-Za-z0-9._:-]*$/\<close>.\<close>

definition is_alnum :: "char \<Rightarrow> bool" where
  "is_alnum c \<longleftrightarrow>
     (let n = (of_char c :: nat)
      in (48 \<le> n \<and> n \<le> 57) \<or> (65 \<le> n \<and> n \<le> 90) \<or> (97 \<le> n \<and> n \<le> 122))"

definition is_id_char :: "char \<Rightarrow> bool" where
  "is_id_char c \<longleftrightarrow> is_alnum c \<or> c = CHR ''.'' \<or> c = CHR ''_'' \<or> c = CHR '':'' \<or> c = CHR ''-''"

fun matches_id_pattern :: "string \<Rightarrow> bool" where
  "matches_id_pattern [] = False"
| "matches_id_pattern (c # cs) = (is_alnum c \<and> list_all is_id_char cs)"

text \<open>
  A \<open>Map\<close> is an association list in insertion order: \<open>get\<close> is \<^const>\<open>map_of\<close>,
  \<open>set\<close> is \<^const>\<open>AList.update\<close> (an existing key keeps its place, a new key goes last),
  \<open>keys()\<close> is \<open>map fst\<close>. \<open>m.get(k) ?? d\<close> is \<open>get_or d m k\<close>.
\<close>

definition get_or :: "'v \<Rightarrow> ('k \<times> 'v) list \<Rightarrow> 'k \<Rightarrow> 'v" where
  "get_or d m k = (case map_of m k of Some v \<Rightarrow> v | None \<Rightarrow> d)"

text \<open>
  \<open>Array.prototype.sort\<close> is stable; with a comparator that is a total preorder its
  result is the one of stable insertion sort. \<open>le a b\<close> stands for \<open>compare(a, b) <= 0\<close>.
\<close>

fun insert_by :: "('a \<Rightarrow> 'a \<Rightarrow> bool) \<Rightarrow> 'a \<Rightarrow> 'a list \<Rightarrow> 'a list" where
  "insert_by le x [] = [x]"
| "insert_by le x (y # ys) = (if le x y then x # y # ys else y # insert_by le x ys)"

definition stable_sort :: "('a \<Rightarrow> 'a \<Rightarrow> bool) \<Rightarrow> 'a list \<Rightarrow> 'a list" where
  "stable_sort le xs = foldr (insert_by le) xs []"

section \<open>Workflow graph compiler (workflow-graph-v11.ts)\<close>

datatype WorkflowGraphV11NodeType = Step | Decision | Merge | End | Subworkflow

record WorkflowGraphV11Node =
  gn_id :: string
  gn_type :: WorkflowGraphV11NodeType
  gn_file :: string
  gn_title :: "string option"
  gn_agentId :: "string option"
  gn_inputs :: "string list option"
  gn_outputs :: "string list option"

record WorkflowGraphV11Edge =
  ge_id :: "string option"
  ge_from :: string
  ge_to :: string
  ge_label :: string
  ge_isDefault :: "bool option"
  ge_conditionText :: "string option"

record WorkflowGraphV11 =
  schemaVersion :: string
  entryNodeId :: string
  nodes :: "WorkflowGraphV11Node list"
  edges :: "WorkflowGraphV11Edge list"

text \<open>
  The builder's input. A \<open>null\<close> array element behaves in every path as an element whose
  \<open>id\<close> (for a node) or \<open>source\<close> (for an edge) is empty, and is modelled so.
\<close>

record BuilderNodeData =
  nd_title :: "json option"
  nd_agentId :: "json option"
  nd_inputs :: "json option"
  nd_outputs :: "json option"

record BuilderGraphNode =
  bn_id :: string
  bn_type :: "json option"
  bn_data :: "BuilderNodeData option"

record BuilderEdgeData =
  ed_isDefault :: "json option"
  ed_conditionText :: "json option"

record BuilderGraphEdge =
  be_id :: "string option"
  be_source :: string
  be_target :: string
  be_label :: "json option"
  be_data :: "BuilderEdgeData option"

text \<open>Messages are constructors that carry the values interpolated into the message.\<close>

datatype graph_warning =
    DuplicateNodeIds nat
  | MultipleStartNodes string
  | UnknownNodeType string json
  | MultipleDefaultEdges string "string list"

datatype graph_error =
    NoNodes
  | InvalidNodeIds "string list"
  | IncompleteEdge nat
  | EdgeSourceMissing string nat
  | EdgeTargetMissing string nat
  | CycleDetected
  | NoEntryNode

record WorkflowGraphBuildResult =
  graph :: "WorkflowGraphV11 option"
  warnings :: "graph_warning list"
  errors :: "graph_error list"

fun isNodeType :: "json option \<Rightarrow> WorkflowGraphV11NodeType option" where
  "isNodeType (Some (JStr s)) =
     (if s = ''step'' then Some Step
      else if s = ''decision'' then Some Decision
      else if s = ''merge'' then Some Merge
      else if s = ''end'' then Some End
      else if s = ''subworkflow'' then Some Subworkflow
      else None)"
| "isNodeType _ = None"

fun parseStringList :: "json option \<Rightarrow> string list" where
  "parseStringList (Some (JArr vs)) =
     filter (\<lambda>s. s \<noteq> []) (map (\<lambda>v. trimmed_string (Some v)) vs)"
| "parseStringList _ = []"

text \<open>A valid edge is kept with its index in the input array: \<open>{ edge, idx }\<close>.\<close>

type_synonym edge_record = "nat \<times> BuilderGraphEdge"

definition stableEdgeSortKey :: "BuilderGraphEdge \<Rightarrow> nat \<Rightarrow> string" where
  "stableEdgeSortKey edge fallbackIndex =
     (let i = (case be_id edge of Some s \<Rightarrow> trim s | None \<Rightarrow> [])
      in if i \<noteq> [] then i
         else be_source edge @ ''->'' @ be_target edge @ ''#'' @ string_of_nat fallbackIndex)"

definition nodesById_of :: "BuilderGraphNode list \<Rightarrow> (string \<times> BuilderGraphNode) list" where
  "nodesById_of ns =
     fold (\<lambda>node m. if bn_id node = [] then m else AList.update (bn_id node) node m) ns []"

definition edge_problem :: "(string \<times> BuilderGraphNode) list \<Rightarrow> edge_record \<Rightarrow> graph_error option" where
  "edge_problem nodesById r =
     (case r of (idx, edge) \<Rightarrow>
        if be_source edge = [] \<or> be_target edge = [] then Some (IncompleteEdge idx)
        else if map_of nodesById (be_source edge) = None then Some (EdgeSourceMissing (be_source edge) idx)
        else if map_of nodesById (be_target edge) = None then Some (EdgeTargetMissing (be_target edge) idx)
        else None)"

definition validEdges_of :: "(string \<times> BuilderGraphNode) list \<Rightarrow> BuilderGraphEdge list \<Rightarrow> edge_record list" where
  "validEdges_of nodesById es = filter (\<lambda>r. edge_problem nodesById r = None) (enumerate 0 es)"

definition edge_errors_of :: "(string \<times> BuilderGraphNode) list \<Rightarrow> BuilderGraphEdge list \<Rightarrow> graph_error list" where
  "edge_errors_of nodesById es = List.map_filter (edge_problem nodesById) (enumerate 0 es)"

text \<open>
  The in-degree and adjacency maps: every node id is entered first, then one pass over
  the valid edges updates both maps (independently of each other).
\<close>

definition indegree_of :: "string list \<Rightarrow> edge_record list \<Rightarrow> (string \<times> int) list" where
  "indegree_of nodeIds validEdges =
     fold (\<lambda>r m. AList.update (be_target (snd r)) (get_or 0 m (be_target (snd r)) + 1) m) validEdges
       (fold (\<lambda>i m. AList.update i 0 m) nodeIds [])"

definition outgoing_of :: "string list \<Rightarrow> edge_record list \<Rightarrow> (string \<times> string list) list" where
  "outgoing_of nodeIds validEdges =
     fold (\<lambda>r m. case map_of m (be_source (snd r)) of
                    Some ts \<Rightarrow> AList.update (be_source (snd r)) (ts @ [be_target (snd r)]) m
                  | None \<Rightarrow> m) validEdges
       (fold (\<lambda>i m. AList.update i [] m) nodeIds [])"

text \<open>One pass of the inner \<open>for\<close> loop of the traversal, on the pair (nextIndegree, queue).\<close>

definition relax :: "string \<Rightarrow> (string \<times> int) list \<times> string list \<Rightarrow> (string \<times> int) list \<times> string list" where
  "relax t s =
     (case s of (nextIndegree, queue) \<Rightarrow>
        let v = get_or 0 nextIndegree t - 1
        in (AList.update t v nextIndegree, if v = 0 then queue @ [t] else queue))"

lemma sum_update_present:
  "map_of m k = Some v \<Longrightarrow>
     sum_list (map (\<lambda>p. nat (snd p)) (AList.update k w m)) + nat v = sum_list (map (\<lambda>p. nat (snd p)) m) + nat w"
  by (induction m) (auto split: if_splits)

lemma sum_update_absent:
  "map_of m k = None \<Longrightarrow>
     sum_list (map (\<lambda>p. nat (snd p)) (AList.update k w m)) = sum_list (map (\<lambda>p. nat (snd p)) m) + nat w"
  by (induction m) (auto split: if_splits)

lemma relax_measure:
  "relax t (m, q) = (m', q') \<Longrightarrow>
     length q' + sum_list (map (\<lambda>p. nat (snd p)) m') \<le> length q + sum_list (map (\<lambda>p. nat (snd p)) m)"
proof (cases "map_of m t")
  case None
  assume "relax t (m, q) = (m', q')"
  with None sum_update_absent [OF None, of "- 1"] show ?thesis
    by (auto simp: relax_def get_or_def Let_def)
next
  case (Some v)
  assume "relax t (m, q) = (m', q')"
  with Some sum_update_present [OF Some, of "v - 1"] show ?thesis
    by (auto simp: relax_def get_or_def Let_def split: if_splits)
qed

lemma fold_relax_measure:
  "fold relax ts (m, q) = (m', q') \<Longrightarrow>
     length q' + sum_list (map (\<lambda>p. nat (snd p)) m') \<le> length q + sum_list (map (\<lambda>p. nat (snd p)) m)"
proof (induction ts arbitrary: m q)
  case Nil
  then show ?case by simp
next
  case (Cons t ts)
  obtain m1 q1 where r: "relax t (m, q) = (m1, q1)" by (cases "relax t (m, q)")
  from Cons.prems r have "fold relax ts (m1, q1) = (m', q')" by simp
  from Cons.IH [OF this] relax_measure [OF r] show ?case by linarith
qed

text \<open>
  The \<open>while (queue.length)\<close> loop: \<open>queue.shift()\<close>, the guard \<open>if (!id) break\<close>, the
  counter, and the inner loop over \<open>outgoing.get(id) ?? []\<close>.
\<close>

function kahn :: "(string \<times> string list) list \<Rightarrow> string list \<Rightarrow> (string \<times> int) list \<Rightarrow> nat \<Rightarrow> nat" where
  "kahn outgoing [] nextIndegree visited = visited"
| "kahn outgoing (i # queue) nextIndegree visited =
     (if i = [] then visited
      else case fold relax (get_or [] outgoing i) (nextIndegree, queue) of
             (nextIndegree', queue') \<Rightarrow> kahn outgoing queue' nextIndegree' (visited + 1))"
  by pat_completeness auto
termination
proof (relation "measure (\<lambda>(outgoing, queue, m, visited). length queue + sum_list (map (\<lambda>p. nat (snd p)) m))", goal_cases)
  case 1
  show ?case by simp
next
  case (2 outgoing i queue nextIndegree visited m' q')
  then have "fold relax (get_or [] outgoing i) (nextIndegree, queue) = (m', q')" by simp
  from fold_relax_measure [OF this] show ?case by simp
qed

declare kahn.simps [simp del]

definition startNodes_of :: "(string \<Rightarrow> string \<Rightarrow> bool) \<Rightarrow> string list \<Rightarrow> (string \<times> int) list \<Rightarrow> string list" where
  "startNodes_of lc nodeIds indegree = stable_sort lc (filter (\<lambda>i. get_or 0 indegree i = 0) nodeIds)"

definition mapNode :: "(string \<times> BuilderGraphNode) list \<Rightarrow> string \<Rightarrow> WorkflowGraphV11Node" where
  "mapNode nodesById i =
     (let node = map_of nodesById i;
          data = Option.bind node bn_data;
          title = trimmed_string (Option.bind data nd_title);
          agentId = trimmed_string (Option.bind data nd_agentId);
          inputs = parseStringList (Option.bind data nd_inputs);
          outputs = parseStringList (Option.bind data nd_outputs)
      in \<lparr> gn_id = i,
           gn_type = (case isNodeType (Option.bind node bn_type) of Some t \<Rightarrow> t | None \<Rightarrow> Step),
           gn_file = ''steps/'' @ i @ ''.md'',
           gn_title = (if title \<noteq> [] then Some title else None),
           gn_agentId = (if agentId \<noteq> [] then Some agentId else None),
           gn_inputs = (if inputs \<noteq> [] then Some inputs else None),
           gn_outputs = (if outputs \<noteq> [] then Some outputs else None) \<rparr>)"

definition nodeTypeWarnings :: "(string \<times> BuilderGraphNode) list \<Rightarrow> string \<Rightarrow> graph_warning list" where
  "nodeTypeWarnings nodesById i =
     (case Option.bind (map_of nodesById i) bn_type of
        Some rawType \<Rightarrow> if truthy rawType \<and> isNodeType (Some rawType) = None then [UnknownNodeType i rawType] else []
      | None \<Rightarrow> [])"

definition edgesBySource_of :: "edge_record list \<Rightarrow> (string \<times> edge_record list) list" where
  "edgesBySource_of validEdges =
     fold (\<lambda>r m. AList.update (be_source (snd r)) (get_or [] m (be_source (snd r)) @ [r]) m) validEdges []"

definition record_key :: "edge_record \<Rightarrow> string" where
  "record_key r = stableEdgeSortKey (snd r) (fst r)"

definition sortedGroup :: "(string \<Rightarrow> string \<Rightarrow> bool) \<Rightarrow> edge_record list \<Rightarrow> edge_record list" where
  "sortedGroup lc bucket = stable_sort (\<lambda>a b. lc (record_key a) (record_key b)) bucket"

definition flaggedDefault :: "edge_record \<Rightarrow> bool" where
  "flaggedDefault r \<longleftrightarrow> Option.bind (be_data (snd r)) ed_isDefault = Some (JBool True)"

text \<open>
  \<open>multi ? (defaults[0] ?? group[0]) : null\<close>. The comparison \<open>chosenDefault.edge === edge\<close>
  is by object identity; each element of the input array being an object of its own, it
  is the equality of the indices in the input array.
\<close>

definition chosenDefault_of :: "edge_record list \<Rightarrow> edge_record option" where
  "chosenDefault_of grp =
     (if length grp > 1
      then (case filter flaggedDefault grp of
              d # _ \<Rightarrow> Some d
            | [] \<Rightarrow> (case grp of g # _ \<Rightarrow> Some g | [] \<Rightarrow> None))
      else None)"

definition mapEdge :: "bool \<Rightarrow> edge_record option \<Rightarrow> nat \<times> edge_record \<Rightarrow> WorkflowGraphV11Edge" where
  "mapEdge multi chosenDefault p =
     (case p of (idx, r) \<Rightarrow>
        let edge = snd r;
            rawLabel = trimmed_string (be_label edge);
            label = (if rawLabel \<noteq> [] then rawLabel
                     else if multi then ''branch-'' @ string_of_nat (idx + 1) else ''next'');
            conditionText = trimmed_string (Option.bind (be_data edge) ed_conditionText);
            i = (case be_id edge of Some s \<Rightarrow> if trim s \<noteq> [] then Some (trim s) else None | None \<Rightarrow> None);
            isDefault = (case chosenDefault of Some c \<Rightarrow> fst c = fst r | None \<Rightarrow> False)
        in \<lparr> ge_id = i,
             ge_from = be_source edge,
             ge_to = be_target edge,
             ge_label = label,
             ge_isDefault = (if multi \<and> isDefault then Some True else None),
             ge_conditionText = (if conditionText \<noteq> [] then Some conditionText else None) \<rparr>)"

definition mapGroup :: "(string \<Rightarrow> string \<Rightarrow> bool) \<Rightarrow> edge_record list \<Rightarrow> WorkflowGraphV11Edge list" where
  "mapGroup lc bucket =
     (let grp = sortedGroup lc bucket
      in map (mapEdge (length grp > 1) (chosenDefault_of grp)) (enumerate 0 grp))"

definition groupWarnings :: "(string \<Rightarrow> string \<Rightarrow> bool) \<Rightarrow> string \<Rightarrow> edge_record list \<Rightarrow> graph_warning list" where
  "groupWarnings lc source bucket =
     (let grp = sortedGroup lc bucket;
          defaults = filter flaggedDefault grp
      in if length grp > 1 \<and> length defaults > 1
         then [MultipleDefaultEdges source
                 (map (\<lambda>d. case be_id (snd d) of Some s \<Rightarrow> s | None \<Rightarrow> record_key d) defaults)]
         else [])"

definition mappedEdges_of :: "(string \<Rightarrow> string \<Rightarrow> bool) \<Rightarrow> edge_record list \<Rightarrow> WorkflowGraphV11Edge list" where
  "mappedEdges_of lc validEdges =
     (let edgesBySource = edgesBySource_of validEdges;
          sources = stable_sort lc (map fst edgesBySource)
      in concat (map (\<lambda>source. mapGroup lc (get_or [] edgesBySource source)) sources))"

definition defaultWarnings_of :: "(string \<Rightarrow> string \<Rightarrow> bool) \<Rightarrow> edge_record list \<Rightarrow> graph_warning list" where
  "defaultWarnings_of lc validEdges =
     (let edgesBySource = edgesBySource_of validEdges;
          sources = stable_sort lc (map fst edgesBySource)
      in concat (map (\<lambda>source. groupWarnings lc source (get_or [] edgesBySource source)) sources))"

definition visited_of :: "string list \<Rightarrow> edge_record list \<Rightarrow> nat" where
  "visited_of nodeIds validEdges =
     (let indegree = indegree_of nodeIds validEdges
      in kahn (outgoing_of nodeIds validEdges) (filter (\<lambda>i. get_or 0 indegree i = 0) nodeIds) indegree 0)"

definition entry_of :: "string list \<Rightarrow> string" where
  "entry_of startNodes = (case startNodes of [] \<Rightarrow> [] | s # _ \<Rightarrow> s)"

text \<open>The errors collected up to the check \<open>if (errors.length)\<close>, in the order they are pushed.\<close>

definition graphErrors_of :: "(string \<Rightarrow> string \<Rightarrow> bool) \<Rightarrow> BuilderGraphNode list \<Rightarrow> BuilderGraphEdge list \<Rightarrow> graph_error list" where
  "graphErrors_of lc ns es =
     (let nodesById = nodesById_of ns;
          nodeIds = map fst nodesById;
          invalidIds = filter (\<lambda>i. \<not> matches_id_pattern i) nodeIds;
          validEdges = validEdges_of nodesById es
      in (if invalidIds \<noteq> [] then [InvalidNodeIds invalidIds] else [])
         @ edge_errors_of nodesById es
         @ (if validEdges \<noteq> [] \<and> visited_of nodeIds validEdges \<noteq> length nodeIds then [CycleDetected] else [])
         @ (if entry_of (startNodes_of lc nodeIds (indegree_of nodeIds validEdges)) = [] then [NoEntryNode] else []))"

text \<open>The warnings pushed before that check.\<close>

definition earlyWarnings_of :: "(string \<Rightarrow> string \<Rightarrow> bool) \<Rightarrow> BuilderGraphNode list \<Rightarrow> BuilderGraphEdge list \<Rightarrow> graph_warning list" where
  "earlyWarnings_of lc ns es =
     (let nodesById = nodesById_of ns;
          nodeIds = map fst nodesById;
          duplicates = length ns - length nodeIds;
          startNodes = startNodes_of lc nodeIds (indegree_of nodeIds (validEdges_of nodesById es))
      in (if duplicates > 0 then [DuplicateNodeIds duplicates] else [])
         @ (if length startNodes > 1 then [MultipleStartNodes (entry_of startNodes)] else []))"

text \<open>
  \<open>buildWorkflowGraphV11\<close>. The parameter \<open>lc a b\<close> stands for \<open>a.localeCompare(b) <= 0\<close>,
  which depends on the host's locale.
\<close>

definition buildWorkflowGraphV11 ::
  "(string \<Rightarrow> string \<Rightarrow> bool) \<Rightarrow> BuilderGraphNode list \<Rightarrow> BuilderGraphEdge list \<Rightarrow> WorkflowGraphBuildResult" where
  "buildWorkflowGraphV11 lc ns es =
     (if ns = [] then \<lparr> graph = None, warnings = [], errors = [NoNodes] \<rparr>
      else
        let nodesById = nodesById_of ns;
            nodeIds = map fst nodesById;
            validEdges = validEdges_of nodesById es;
            errs = graphErrors_of lc ns es;
            warns = earlyWarnings_of lc ns es
        in if errs \<noteq> [] then \<lparr> graph = None, warnings = warns, errors = errs \<rparr>
           else
             let sortedIds = stable_sort lc nodeIds
             in \<lparr> graph = Some \<lparr> schemaVersion = ''1.1'',
                                 entryNodeId = entry_of (startNodes_of lc nodeIds (indegree_of nodeIds validEdges)),
                                 nodes = map (mapNode nodesById) sortedIds,
                                 edges = mappedEdges_of lc validEdges \<rparr>,
                  warnings = warns @ concat (map (nodeTypeWarnings nodesById) sortedIds)
                             @ defaultWarnings_of lc validEdges,
                  errors = errs \<rparr>)"

text \<open>
  A comparison used where a concrete locale is needed: code units in lexicographic
  order, which is what \<open>localeCompare\<close> gives on strings of lower-case letters and on
  strings of digits.
\<close>

fun codeUnitLe :: "string \<Rightarrow> string \<Rightarrow> bool" where
  "codeUnitLe [] ys = True"
| "codeUnitLe (x # xs) [] = False"
| "codeUnitLe (x # xs) (y # ys) =
     ((of_char x :: nat) < of_char y \<or> (x = y \<and> codeUnitLe xs ys))"


subsection \<open>Stable sort\<close>

lemma mset_insert_by: "mset (insert_by le x ys) = add_mset x (mset ys)"
  by (induction ys) auto

lemma mset_stable_sort: "mset (stable_sort le xs) = mset xs"
  by (induction xs) (auto simp: stable_sort_def mset_insert_by)

lemma set_insert_by: "set (insert_by le x ys) = insert x (set ys)"
  by (induction ys) auto

lemma set_stable_sort: "set (stable_sort le xs) = set xs"
  by (induction xs) (auto simp: stable_sort_def set_insert_by)

lemma length_stable_sort: "length (stable_sort le xs) = length xs"
proof -
  have "size (mset (stable_sort le xs)) = size (mset xs)"
    by (simp only: mset_stable_sort)
  then show ?thesis by simp
qed

lemma distinct_map_stable_sort: "distinct (map f (stable_sort le xs)) = distinct (map f xs)"
proof -
  have "mset (map f (stable_sort le xs)) = mset (map f xs)"
    by (simp add: mset_stable_sort)
  then show ?thesis by (rule mset_eq_imp_distinct_iff)
qed

lemma distinct_stable_sort: "distinct (stable_sort le xs) = distinct xs"
  using distinct_map_stable_sort [of "\<lambda>x. x" le xs] by simp

lemma stable_sort_Nil: "stable_sort le [] = []"
  by (simp add: stable_sort_def)

lemma stable_sort_Cons: "stable_sort le (x # xs) = insert_by le x (stable_sort le xs)"
  by (simp add: stable_sort_def)

lemma stable_sort_eq_Nil: "stable_sort le xs = [] \<longleftrightarrow> xs = []"
  using length_stable_sort [of le xs] by auto

definition total_preorder :: "('a \<Rightarrow> 'a \<Rightarrow> bool) \<Rightarrow> bool" where
  "total_preorder le \<longleftrightarrow> (\<forall>a b. le a b \<or> le b a) \<and> (\<forall>a b c. le a b \<and> le b c \<longrightarrow> le a c)"

lemma hd_insert_by: "hd (insert_by le x ys) = (if ys = [] \<or> le x (hd ys) then x else hd ys)"
  by (cases ys) auto

lemma hd_insert_by_least:
  assumes tot: "\<And>a b. le a b \<or> le b a" and tr: "\<And>a b c. le a b \<Longrightarrow> le b c \<Longrightarrow> le a c"
    and ys: "\<And>y. y \<in> set ys \<Longrightarrow> le (hd ys) y" and y: "y \<in> set (insert_by le x ys)"
  shows "le (hd (insert_by le x ys)) y"
proof -
  from y have y': "y = x \<or> y \<in> set ys" by (simp add: set_insert_by)
  have rf: "le x x" using tot [of x x] by simp
  show ?thesis
  proof (cases "ys = [] \<or> le x (hd ys)")
    case True
    then have h: "hd (insert_by le x ys) = x" by (simp add: hd_insert_by)
    from y' show ?thesis
    proof
      assume "y = x" with h rf show ?thesis by simp
    next
      assume m: "y \<in> set ys"
      then have "ys \<noteq> []" by auto
      with True have "le x (hd ys)" by simp
      from tr [OF this ys [OF m]] h show ?thesis by simp
    qed
  next
    case False
    then have h: "hd (insert_by le x ys) = hd ys" by (simp add: hd_insert_by)
    from False tot [of x "hd ys"] have "le (hd ys) x" by simp
    with y' ys h show ?thesis by auto
  qed
qed

lemma hd_stable_sort_least:
  assumes "total_preorder le" and "y \<in> set xs"
  shows "le (hd (stable_sort le xs)) y"
  using assms(2)
proof (induction xs arbitrary: y)
  case Nil
  then show ?case by simp
next
  case (Cons x xs)
  have tot: "\<And>a b. le a b \<or> le b a" and tr: "\<And>a b c. le a b \<Longrightarrow> le b c \<Longrightarrow> le a c"
    using assms(1) unfolding total_preorder_def by blast+
  have ih: "\<And>z. z \<in> set (stable_sort le xs) \<Longrightarrow> le (hd (stable_sort le xs)) z"
    using Cons.IH by (simp add: set_stable_sort)
  have "y \<in> set (insert_by le x (stable_sort le xs))"
    using Cons.prems by (simp add: set_insert_by set_stable_sort)
  from hd_insert_by_least [of le "stable_sort le xs" y x, OF tot tr ih this]
  show ?case by (simp add: stable_sort_Cons)
qed


subsection \<open>The node map\<close>

lemma get_or_update: "get_or d (AList.update k v m) k' = (if k' = k then v else get_or d m k')"
  by (simp add: get_or_def update_conv')

lemma keys_nodes_fold:
  "set (map fst (fold (\<lambda>node m. if bn_id node = [] then m else AList.update (bn_id node) node m) ns m))
     = set (map fst m) \<union> {bn_id n | n. n \<in> set ns \<and> bn_id n \<noteq> []}"
proof (induction ns arbitrary: m)
  case Nil
  show ?case by simp
next
  case (Cons n ns)
  show ?case
  proof (cases "bn_id n = []")
    case True
    then show ?thesis using Cons.IH [of m] by auto
  next
    case False
    have "fst ` set (AList.update (bn_id n) n m) = {bn_id n} \<union> fst ` set m"
      by (rule dom_update)
    with False show ?thesis using Cons.IH [of "AList.update (bn_id n) n m"] by auto
  qed
qed

lemma distinct_nodes_fold:
  "distinct (map fst m) \<Longrightarrow>
     distinct (map fst (fold (\<lambda>node m. if bn_id node = [] then m else AList.update (bn_id node) node m) ns m))"
  by (induction ns arbitrary: m) (auto simp: distinct_update)

lemma map_of_nodes_fold:
  "i \<noteq> [] \<Longrightarrow>
     map_of (fold (\<lambda>node m. if bn_id node = [] then m else AList.update (bn_id node) node m) ns m) i
       = (if filter (\<lambda>n. bn_id n = i) ns = [] then map_of m i
          else Some (last (filter (\<lambda>n. bn_id n = i) ns)))"
proof (induction ns arbitrary: m)
  case Nil
  show ?case by simp
next
  case (Cons n ns)
  show ?case
  proof (cases "bn_id n = i")
    case True
    with Cons.prems have ne: "bn_id n \<noteq> []" by simp
    from True ne Cons.IH [OF Cons.prems, of "AList.update (bn_id n) n m"]
    show ?thesis by (simp add: update_conv')
  next
    case False
    show ?thesis
    proof (cases "bn_id n = []")
      case True
      with False Cons.IH [OF Cons.prems, of m] show ?thesis by simp
    next
      case ne: False
      with False Cons.IH [OF Cons.prems, of "AList.update (bn_id n) n m"]
      show ?thesis by (simp add: update_conv')
    qed
  qed
qed

lemma keys_nodesById: "set (map fst (nodesById_of ns)) = {bn_id n | n. n \<in> set ns \<and> bn_id n \<noteq> []}"
  unfolding nodesById_of_def using keys_nodes_fold [of ns "[]"] by simp

lemma distinct_nodesById: "distinct (map fst (nodesById_of ns))"
  unfolding nodesById_of_def by (rule distinct_nodes_fold) simp

lemma map_of_nodesById:
  "i \<noteq> [] \<Longrightarrow> map_of (nodesById_of ns) i
     = (if filter (\<lambda>n. bn_id n = i) ns = [] then None else Some (last (filter (\<lambda>n. bn_id n = i) ns)))"
  unfolding nodesById_of_def using map_of_nodes_fold [of i ns "[]"] by simp

lemma nodesById_keys_nonempty: "i \<in> set (map fst (nodesById_of ns)) \<Longrightarrow> i \<noteq> []"
  by (auto simp: keys_nodesById simp del: set_map)

subsection \<open>The valid edges\<close>

lemma edge_problem_None:
  "edge_problem nodesById (idx, edge) = None \<longleftrightarrow>
     be_source edge \<noteq> [] \<and> be_target edge \<noteq> []
     \<and> map_of nodesById (be_source edge) \<noteq> None \<and> map_of nodesById (be_target edge) \<noteq> None"
  by (simp add: edge_problem_def)

lemma validEdges_mem:
  assumes "r \<in> set (validEdges_of nodesById es)"
  shows "be_source (snd r) \<in> set (map fst nodesById)" and "be_target (snd r) \<in> set (map fst nodesById)"
    and "fst r < length es" and "snd r = es ! fst r"
proof -
  obtain idx edge where r: "r = (idx, edge)" by (cases r)
  from assms r have p: "edge_problem nodesById (idx, edge) = None" and e: "(idx, edge) \<in> set (enumerate 0 es)"
    by (simp_all add: validEdges_of_def)
  from p have "map_of nodesById (be_source edge) \<noteq> None" "map_of nodesById (be_target edge) \<noteq> None"
    by (simp_all add: edge_problem_None)
  then have "be_source edge \<in> fst ` set nodesById" "be_target edge \<in> fst ` set nodesById"
    by (simp_all add: map_of_eq_None_iff)
  with r show "be_source (snd r) \<in> set (map fst nodesById)" "be_target (snd r) \<in> set (map fst nodesById)"
    by simp_all
  from e have "idx < length es \<and> edge = es ! idx" by (simp add: in_set_enumerate_eq)
  with r show "fst r < length es" "snd r = es ! fst r" by simp_all
qed

lemma distinct_validEdges: "distinct (map fst (validEdges_of nodesById es))"
  unfolding validEdges_of_def by (rule distinct_map_filter) simp

lemma edge_errors_empty_iff:
  "edge_errors_of nodesById es = [] \<longleftrightarrow> length (validEdges_of nodesById es) = length es"
proof -
  let ?xs = "enumerate 0 es"
  have a: "length (filter (\<lambda>r. edge_problem nodesById r = None) ?xs)
             + length (filter (\<lambda>r. edge_problem nodesById r \<noteq> None) ?xs) = length ?xs"
    using sum_length_filter_compl [of "\<lambda>r. edge_problem nodesById r = None" ?xs] by simp
  have b: "length (List.map_filter (edge_problem nodesById) ?xs)
             = length (filter (\<lambda>r. edge_problem nodesById r \<noteq> None) ?xs)"
    by (simp add: List.map_filter_def)
  from a b show ?thesis by (auto simp: edge_errors_of_def validEdges_of_def)
qed

subsection \<open>The edges grouped by source\<close>

lemma get_edges_fold:
  "get_or [] (fold (\<lambda>r m. AList.update (be_source (snd r)) (get_or [] m (be_source (snd r)) @ [r]) m) ves m) s
     = get_or [] m s @ filter (\<lambda>r. be_source (snd r) = s) ves"
  by (induction ves arbitrary: m) (auto simp: get_or_update)

lemma keys_edges_fold:
  "set (map fst (fold (\<lambda>r m. AList.update (be_source (snd r)) (get_or [] m (be_source (snd r)) @ [r]) m) ves m))
     = set (map fst m) \<union> (\<lambda>r. be_source (snd r)) ` set ves"
proof (induction ves arbitrary: m)
  case Nil
  show ?case by simp
next
  case (Cons r ves)
  have "fst ` set (AList.update (be_source (snd r)) (get_or [] m (be_source (snd r)) @ [r]) m)
          = {be_source (snd r)} \<union> fst ` set m"
    by (rule dom_update)
  then show ?case
    using Cons.IH [of "AList.update (be_source (snd r)) (get_or [] m (be_source (snd r)) @ [r]) m"] by auto
qed

lemma distinct_edges_fold:
  "distinct (map fst m) \<Longrightarrow>
     distinct (map fst (fold (\<lambda>r m. AList.update (be_source (snd r)) (get_or [] m (be_source (snd r)) @ [r]) m) ves m))"
  by (induction ves arbitrary: m) (auto simp: distinct_update)

lemma get_edgesBySource:
  "get_or [] (edgesBySource_of ves) s = filter (\<lambda>r. be_source (snd r) = s) ves"
  unfolding edgesBySource_of_def using get_edges_fold [of ves "[]" s] by (simp add: get_or_def)

lemma keys_edgesBySource: "set (map fst (edgesBySource_of ves)) = (\<lambda>r. be_source (snd r)) ` set ves"
  unfolding edgesBySource_of_def using keys_edges_fold [of ves "[]"] by simp

lemma distinct_edgesBySource: "distinct (map fst (edgesBySource_of ves))"
  unfolding edgesBySource_of_def by (rule distinct_edges_fold) simp

subsection \<open>The emitted edges\<close>

lemma sortedGroup_set: "set (sortedGroup lc bucket) = set bucket"
  by (simp add: sortedGroup_def set_stable_sort)

lemma sortedGroup_length: "length (sortedGroup lc bucket) = length bucket"
  by (simp add: sortedGroup_def length_stable_sort)

lemma sortedGroup_Nil: "sortedGroup lc [] = []"
  by (simp add: sortedGroup_def stable_sort_Nil)

lemma mapEdge_from: "ge_from (mapEdge multi c (idx, r)) = be_source (snd r)"
  by (simp add: mapEdge_def Let_def)

lemma mapEdge_to: "ge_to (mapEdge multi c (idx, r)) = be_target (snd r)"
  by (simp add: mapEdge_def Let_def)

lemma map_from_mapGroup: "map ge_from (mapGroup lc bucket) = map (\<lambda>r. be_source (snd r)) (sortedGroup lc bucket)"
proof -
  have "map (\<lambda>p. ge_from (mapEdge m c p)) (enumerate n xs) = map (\<lambda>r. be_source (snd r)) xs" for m c n xs
    by (induction xs arbitrary: n) (auto simp: mapEdge_from)
  then show ?thesis by (simp add: mapGroup_def Let_def comp_def)
qed

lemma map_to_mapGroup: "map ge_to (mapGroup lc bucket) = map (\<lambda>r. be_target (snd r)) (sortedGroup lc bucket)"
proof -
  have "map (\<lambda>p. ge_to (mapEdge m c p)) (enumerate n xs) = map (\<lambda>r. be_target (snd r)) xs" for m c n xs
    by (induction xs arbitrary: n) (auto simp: mapEdge_to)
  then show ?thesis by (simp add: mapGroup_def Let_def comp_def)
qed

lemma mapGroup_from:
  assumes "e \<in> set (mapGroup lc (filter (\<lambda>r. be_source (snd r) = s) ves))"
  shows "ge_from e = s"
proof -
  from assms have "ge_from e \<in> set (map ge_from (mapGroup lc (filter (\<lambda>r. be_source (snd r) = s) ves)))"
    by simp
  then have "ge_from e \<in> (\<lambda>r. be_source (snd r)) ` set (filter (\<lambda>r. be_source (snd r) = s) ves)"
    by (simp add: map_from_mapGroup sortedGroup_set)
  then show ?thesis by auto
qed

lemma filter_concat_groups:
  assumes "distinct xs" and "\<And>x e. x \<in> set xs \<Longrightarrow> e \<in> set (f x) \<Longrightarrow> k e = x"
  shows "filter (\<lambda>e. k e = s) (concat (map f xs)) = (if s \<in> set xs then f s else [])"
  using assms
proof (induction xs)
  case Nil
  show ?case by simp
next
  case (Cons x xs)
  have ih: "filter (\<lambda>e. k e = s) (concat (map f xs)) = (if s \<in> set xs then f s else [])"
    using Cons by simp
  have fx: "filter (\<lambda>e. k e = s) (f x) = (if s = x then f x else [])"
    using Cons.prems(2) [of x] by (auto simp: filter_empty_conv filter_id_conv)
  from Cons.prems(1) ih fx show ?case by auto
qed

lemma mapGroup_Nil: "mapGroup lc [] = []"
  by (simp add: mapGroup_def sortedGroup_Nil enumerate_simps)

lemma emitted_from:
  "filter (\<lambda>e. ge_from e = s) (mappedEdges_of lc ves) = mapGroup lc (filter (\<lambda>r. be_source (snd r) = s) ves)"
proof -
  let ?srcs = "stable_sort lc (map fst (edgesBySource_of ves))"
  let ?f = "\<lambda>source. mapGroup lc (filter (\<lambda>r. be_source (snd r) = source) ves)"
  have m: "mappedEdges_of lc ves = concat (map ?f ?srcs)"
    by (simp add: mappedEdges_of_def Let_def get_edgesBySource)
  have d: "distinct ?srcs" by (simp add: distinct_stable_sort distinct_edgesBySource)
  have "filter (\<lambda>e. ge_from e = s) (concat (map ?f ?srcs)) = (if s \<in> set ?srcs then ?f s else [])"
    by (rule filter_concat_groups [OF d]) (rule mapGroup_from)
  moreover have "s \<notin> set ?srcs \<Longrightarrow> filter (\<lambda>r. be_source (snd r) = s) ves = []"
    by (auto simp: set_stable_sort keys_edgesBySource filter_empty_conv simp del: set_map)
  ultimately show ?thesis using m by (auto simp: mapGroup_Nil)
qed


subsection \<open>Example inputs\<close>

definition plainNode :: "string \<Rightarrow> BuilderGraphNode" where
  "plainNode i = \<lparr> bn_id = i, bn_type = None, bn_data = None \<rparr>"

definition plainEdge :: "string option \<Rightarrow> string \<Rightarrow> string \<Rightarrow> BuilderGraphEdge" where
  "plainEdge i s t = \<lparr> be_id = i, be_source = s, be_target = t, be_label = None, be_data = None \<rparr>"

definition plainGraphNode :: "string \<Rightarrow> WorkflowGraphV11Node" where
  "plainGraphNode i =
     \<lparr> gn_id = i, gn_type = Step, gn_file = ''steps/'' @ i @ ''.md'', gn_title = None,
       gn_agentId = None, gn_inputs = None, gn_outputs = None \<rparr>"

definition plainGraphEdge :: "string option \<Rightarrow> string \<Rightarrow> string \<Rightarrow> string \<Rightarrow> bool option \<Rightarrow> WorkflowGraphV11Edge" where
  "plainGraphEdge i s t l d =
     \<lparr> ge_id = i, ge_from = s, ge_to = t, ge_label = l, ge_isDefault = d, ge_conditionText = None \<rparr>"

text \<open>The valid edges that leave a node, and the emitted edges that leave it.\<close>

definition outgoingRecords :: "BuilderGraphNode list \<Rightarrow> BuilderGraphEdge list \<Rightarrow> string \<Rightarrow> edge_record list" where
  "outgoingRecords ns es s = filter (\<lambda>r. be_source (snd r) = s) (validEdges_of (nodesById_of ns) es)"

definition emittedFrom :: "WorkflowGraphV11 \<Rightarrow> string \<Rightarrow> WorkflowGraphV11Edge list" where
  "emittedFrom g s = filter (\<lambda>e. ge_from e = s) (edges g)"

subsection \<open>The comparison by code units is a total preorder\<close>

lemma codeUnitLe_total: "codeUnitLe xs ys \<or> codeUnitLe ys xs"
proof (induction xs ys rule: codeUnitLe.induct)
  case (3 x xs y ys)
  show ?case
  proof (cases "x = y")
    case True
    with 3 show ?thesis by auto
  next
    case False
    then have "(of_char x :: nat) \<noteq> of_char y" by simp
    then have "(of_char x :: nat) < of_char y \<or> (of_char y :: nat) < of_char x" by linarith
    then show ?thesis by auto
  qed
qed simp_all

lemma codeUnitLe_trans: "codeUnitLe xs ys \<Longrightarrow> codeUnitLe ys zs \<Longrightarrow> codeUnitLe xs zs"
proof (induction xs ys arbitrary: zs rule: codeUnitLe.induct)
  case (1 ys)
  show ?case by simp
next
  case (2 x xs)
  then show ?case by simp
next
  case (3 x xs y ys)
  from "3.prems"(2) obtain z zs' where zs: "zs = z # zs'" by (cases zs) auto
  from "3.prems" zs "3.IH" [of zs'] show ?case by auto
qed

lemma total_preorder_codeUnitLe: "total_preorder codeUnitLe"
  unfolding total_preorder_def using codeUnitLe_total codeUnitLe_trans by blast

subsection \<open>What a successful compilation returns\<close>

lemma build_Some:
  "graph (buildWorkflowGraphV11 lc ns es) = Some g \<longleftrightarrow>
     ns \<noteq> [] \<and> graphErrors_of lc ns es = []
     \<and> g = \<lparr> schemaVersion = ''1.1'',
             entryNodeId = entry_of (startNodes_of lc (map fst (nodesById_of ns))
                             (indegree_of (map fst (nodesById_of ns)) (validEdges_of (nodesById_of ns) es))),
             nodes = map (mapNode (nodesById_of ns)) (stable_sort lc (map fst (nodesById_of ns))),
             edges = mappedEdges_of lc (validEdges_of (nodesById_of ns) es) \<rparr>"
  by (auto simp: buildWorkflowGraphV11_def Let_def)

lemma build_edges:
  "graph (buildWorkflowGraphV11 lc ns es) = Some g \<Longrightarrow>
     edges g = mappedEdges_of lc (validEdges_of (nodesById_of ns) es)"
  by (simp add: build_Some)

lemma emittedFrom_build:
  "graph (buildWorkflowGraphV11 lc ns es) = Some g \<Longrightarrow>
     emittedFrom g s = mapGroup lc (outgoingRecords ns es s)"
  by (simp add: emittedFrom_def outgoingRecords_def build_edges emitted_from)

lemma distinct_outgoingRecords: "distinct (map fst (outgoingRecords ns es s))"
  unfolding outgoingRecords_def by (rule distinct_map_filter) (rule distinct_validEdges)

subsection \<open>The default flag of the emitted edges\<close>

lemma mapEdge_isDefault:
  "ge_isDefault (mapEdge multi c (idx, r))
     = (if multi \<and> (case c of Some d \<Rightarrow> fst d = fst r | None \<Rightarrow> False) then Some True else None)"
  by (simp add: mapEdge_def Let_def)

lemma map_isDefault_enumerate:
  "map (\<lambda>p. ge_isDefault (mapEdge multi c p)) (enumerate n xs)
     = map (\<lambda>r. if multi \<and> (case c of Some d \<Rightarrow> fst d = fst r | None \<Rightarrow> False) then Some True else None) xs"
  by (induction xs arbitrary: n) (simp_all add: mapEdge_isDefault)

lemma map_isDefault_mapGroup:
  "map ge_isDefault (mapGroup lc bucket)
     = map (\<lambda>r. if 1 < length bucket
                    \<and> (case chosenDefault_of (sortedGroup lc bucket) of Some d \<Rightarrow> fst d = fst r | None \<Rightarrow> False)
                 then Some True else None) (sortedGroup lc bucket)"
  by (simp add: mapGroup_def Let_def comp_def map_isDefault_enumerate sortedGroup_length)

lemma isDefault_single:
  assumes "length bucket = 1"
  shows "map ge_isDefault (mapGroup lc bucket) = [None]"
proof -
  from assms have "length (sortedGroup lc bucket) = 1" by (simp add: sortedGroup_length)
  then obtain r where "sortedGroup lc bucket = [r]"
    by (cases "sortedGroup lc bucket") auto
  with assms show ?thesis by (simp add: map_isDefault_mapGroup)
qed

lemma isDefault_unflagged:
  assumes m: "1 < length bucket" and u: "filter flaggedDefault bucket = []" and d: "distinct (map fst bucket)"
  shows "map ge_isDefault (mapGroup lc bucket) = Some True # replicate (length bucket - 1) None"
proof -
  let ?grp = "sortedGroup lc bucket"
  have len: "length ?grp = length bucket" by (rule sortedGroup_length)
  with m obtain g0 rest where grp: "?grp = g0 # rest"
    by (cases ?grp) auto
  from u have nf: "filter flaggedDefault ?grp = []"
    by (simp add: filter_empty_conv sortedGroup_set)
  from len m nf grp have c: "chosenDefault_of ?grp = Some g0" by (simp add: chosenDefault_of_def)
  have "distinct (map fst ?grp)"
    unfolding sortedGroup_def using d by (simp add: distinct_map_stable_sort)
  with grp have "\<And>r. r \<in> set rest \<Longrightarrow> fst g0 \<noteq> fst r" by auto
  then have "map (\<lambda>r. if fst g0 = fst r then Some True else None) rest = replicate (length rest) None"
    by (induction rest) auto
  moreover from len grp have "length rest = length bucket - 1" by simp
  ultimately show ?thesis using m c grp by (simp add: map_isDefault_mapGroup)
qed

lemma emitted_endpoints:
  "map (\<lambda>e. (ge_from e, ge_to e)) (mapGroup lc bucket)
     = map (\<lambda>r. (be_source (snd r), be_target (snd r))) (sortedGroup lc bucket)"
proof -
  have "map (\<lambda>p. (ge_from (mapEdge m c p), ge_to (mapEdge m c p))) (enumerate n xs)
          = map (\<lambda>r. (be_source (snd r), be_target (snd r))) xs" for m c n xs
    by (induction xs arbitrary: n) (auto simp: mapEdge_from mapEdge_to)
  then show ?thesis by (simp add: mapGroup_def Let_def comp_def)
qed

lemma sortedGroup_least:
  assumes "total_preorder lc" and "r \<in> set bucket"
  shows "lc (record_key (hd (sortedGroup lc bucket))) (record_key r)"
proof -
  have "total_preorder (\<lambda>a b. lc (record_key a) (record_key b))"
    using assms(1) unfolding total_preorder_def by blast
  from hd_stable_sort_least [OF this assms(2)] show ?thesis by (simp add: sortedGroup_def)
qed

text \<open>
  C1 (as amended). In a compiled graph, a node with several outgoing edges none of which
  is flagged \<open>isDefault\<close> has \<open>isDefault: true\<close> written on its first emitted edge and on
  no other; a node with exactly one outgoing edge has its edge emitted without an
  \<open>isDefault\<close> field. The emitted edges of a node are its valid edges in the stable
  order, so the first one has the least sort key when \<open>localeCompare\<close> is a total
  preorder.
\<close>

theorem C1_default_branch:
  assumes "graph (buildWorkflowGraphV11 lc ns es) = Some g"
  shows "(1 < length (outgoingRecords ns es s) \<and> filter flaggedDefault (outgoingRecords ns es s) = []
            \<longrightarrow> map ge_isDefault (emittedFrom g s)
                  = Some True # replicate (length (outgoingRecords ns es s) - 1) None)
       \<and> (length (outgoingRecords ns es s) = 1 \<longrightarrow> map ge_isDefault (emittedFrom g s) = [None])
       \<and> map (\<lambda>e. (ge_from e, ge_to e)) (emittedFrom g s)
           = map (\<lambda>r. (be_source (snd r), be_target (snd r))) (sortedGroup lc (outgoingRecords ns es s))
       \<and> (total_preorder lc \<longrightarrow>
            (\<forall>r \<in> set (outgoingRecords ns es s).
               lc (record_key (hd (sortedGroup lc (outgoingRecords ns es s)))) (record_key r)))"
proof -
  have e: "emittedFrom g s = mapGroup lc (outgoingRecords ns es s)"
    using assms by (rule emittedFrom_build)
  show ?thesis
    unfolding e
    using isDefault_unflagged [OF _ _ distinct_outgoingRecords, of ns es s lc]
      isDefault_single [of "outgoingRecords ns es s" lc]
      emitted_endpoints [of lc "outgoingRecords ns es s"]
      sortedGroup_least [of lc _ "outgoingRecords ns es s"]
    by blast
qed

definition scenarioC_nodes :: "BuilderGraphNode list" where
  "scenarioC_nodes = [plainNode ''d'', plainNode ''x'', plainNode ''y'']"

definition scenarioC_edges :: "BuilderGraphEdge list" where
  "scenarioC_edges =
     [plainEdge (Some ''e1'') ''d'' ''x'', plainEdge (Some ''e2'') ''d'' ''y'', plainEdge (Some ''e3'') ''x'' ''y'']"

definition scenarioC_graph :: WorkflowGraphV11 where
  "scenarioC_graph =
     \<lparr> schemaVersion = ''1.1'', entryNodeId = ''d'',
       nodes = [plainGraphNode ''d'', plainGraphNode ''x'', plainGraphNode ''y''],
       edges = [plainGraphEdge (Some ''e1'') ''d'' ''x'' ''branch-1'' (Some True),
                plainGraphEdge (Some ''e2'') ''d'' ''y'' ''branch-2'' None,
                plainGraphEdge (Some ''e3'') ''x'' ''y'' ''next'' None] \<rparr>"

lemma scenarioC_result:
  "buildWorkflowGraphV11 codeUnitLe scenarioC_nodes scenarioC_edges
     = \<lparr> graph = Some scenarioC_graph, warnings = [], errors = [] \<rparr>"
  by code_simp

theorem C1_counterexample:
  "filter flaggedDefault (outgoingRecords scenarioC_nodes scenarioC_edges ''d'') = []
   \<and> length (outgoingRecords scenarioC_nodes scenarioC_edges ''d'') = 2
   \<and> graph (buildWorkflowGraphV11 codeUnitLe scenarioC_nodes scenarioC_edges) = Some scenarioC_graph
   \<and> map ge_isDefault (emittedFrom scenarioC_graph ''d'') = [Some True, None]"
  by code_simp

theorem C1_default_branch_witness:
  "graph (buildWorkflowGraphV11 codeUnitLe scenarioC_nodes scenarioC_edges) = Some scenarioC_graph
   \<and> 1 < length (outgoingRecords scenarioC_nodes scenarioC_edges ''d'')
   \<and> filter flaggedDefault (outgoingRecords scenarioC_nodes scenarioC_edges ''d'') = []
   \<and> map ge_isDefault (emittedFrom scenarioC_graph ''d'')
       = Some True # replicate (length (outgoingRecords scenarioC_nodes scenarioC_edges ''d'') - 1) None
   \<and> length (outgoingRecords scenarioC_nodes scenarioC_edges ''x'') = 1
   \<and> map ge_isDefault (emittedFrom scenarioC_graph ''x'') = [None]
   \<and> total_preorder codeUnitLe
   \<and> (1, plainEdge (Some ''e2'') ''d'' ''y'') \<in> set (outgoingRecords scenarioC_nodes scenarioC_edges ''d'')
   \<and> codeUnitLe (record_key (hd (sortedGroup codeUnitLe (outgoingRecords scenarioC_nodes scenarioC_edges ''d''))))
       (record_key (1, plainEdge (Some ''e2'') ''d'' ''y''))"
proof -
  have g: "graph (buildWorkflowGraphV11 codeUnitLe scenarioC_nodes scenarioC_edges) = Some scenarioC_graph"
    by (simp add: scenarioC_result)
  have a: "1 < length (outgoingRecords scenarioC_nodes scenarioC_edges ''d'')
           \<and> filter flaggedDefault (outgoingRecords scenarioC_nodes scenarioC_edges ''d'') = []"
    by code_simp
  have b: "length (outgoingRecords scenarioC_nodes scenarioC_edges ''x'') = 1"
    by code_simp
  have m: "(1, plainEdge (Some ''e2'') ''d'' ''y'') \<in> set (outgoingRecords scenarioC_nodes scenarioC_edges ''d'')"
    by code_simp
  note t = C1_default_branch [OF g]
  from t [of "''d''"] t [of "''x''"] a b m total_preorder_codeUnitLe g show ?thesis
    by blast
qed


subsection \<open>The labels of the emitted edges\<close>

lemma sorted_insert_by:
  assumes tot: "\<And>a b. le a b \<or> le b a" and tr: "\<And>a b c. le a b \<Longrightarrow> le b c \<Longrightarrow> le a c"
  shows "sorted_wrt le ys \<Longrightarrow> sorted_wrt le (insert_by le x ys)"
proof (induction ys)
  case Nil
  show ?case by simp
next
  case (Cons y ys)
  show ?case
  proof (cases "le x y")
    case True
    with Cons.prems tr have "\<And>z. z \<in> set ys \<Longrightarrow> le x z" by auto
    with True Cons.prems show ?thesis by auto
  next
    case False
    with tot [of x y] have "le y x" by simp
    with False Cons show ?thesis by (auto simp: set_insert_by)
  qed
qed

lemma sorted_stable_sort:
  assumes "total_preorder le"
  shows "sorted_wrt le (stable_sort le xs)"
proof (induction xs)
  case Nil
  show ?case by (simp add: stable_sort_Nil)
next
  case (Cons x xs)
  have tot: "\<And>a b. le a b \<or> le b a" and tr: "\<And>a b c. le a b \<Longrightarrow> le b c \<Longrightarrow> le a c"
    using assms unfolding total_preorder_def by blast+
  from sorted_insert_by [of le, OF tot tr Cons.IH] show ?case by (simp add: stable_sort_Cons)
qed

lemma sortedGroup_sorted:
  assumes "total_preorder lc"
  shows "sorted_wrt (\<lambda>a b. lc (record_key a) (record_key b)) (sortedGroup lc bucket)"
proof -
  have "total_preorder (\<lambda>a b. lc (record_key a) (record_key b))"
    using assms unfolding total_preorder_def by blast
  then show ?thesis unfolding sortedGroup_def by (rule sorted_stable_sort)
qed

lemma sortedGroup_mset: "mset (sortedGroup lc bucket) = mset bucket"
  by (simp add: sortedGroup_def mset_stable_sort)

lemma mapEdge_label:
  "ge_label (mapEdge multi c (k, r))
     = (if trimmed_string (be_label (snd r)) \<noteq> [] then trimmed_string (be_label (snd r))
        else if multi then ''branch-'' @ string_of_nat (k + 1) else ''next'')"
  by (simp add: mapEdge_def Let_def)

lemma map_label_mapGroup:
  "map ge_label (mapGroup lc bucket)
     = map (\<lambda>(k, r). if trimmed_string (be_label (snd r)) \<noteq> [] then trimmed_string (be_label (snd r))
                     else if 1 < length bucket then ''branch-'' @ string_of_nat (k + 1) else ''next'')
         (enumerate 0 (sortedGroup lc bucket))"
  by (auto simp: mapGroup_def Let_def sortedGroup_length mapEdge_label)

text \<open>
  C5 (as amended). The emitted edges of a node are its valid edges in the stable order
  (sorted by \<open>stableEdgeSortKey\<close>: the trimmed edge id, or \<open>source->target#index\<close>). An
  edge whose label is a string that is not empty once trimmed is emitted with the
  trimmed label. Any other edge is emitted with \<open>next\<close> when it is the only outgoing
  edge of its node, and with \<open>branch-k\<close> otherwise, \<open>k\<close> being its position (from 1) in
  the stable order.
\<close>

theorem C5_edge_labels:
  assumes "graph (buildWorkflowGraphV11 lc ns es) = Some g"
  shows "map ge_label (emittedFrom g s)
           = map (\<lambda>(k, r). if trimmed_string (be_label (snd r)) \<noteq> [] then trimmed_string (be_label (snd r))
                           else if 1 < length (outgoingRecords ns es s) then ''branch-'' @ string_of_nat (k + 1)
                           else ''next'')
               (enumerate 0 (sortedGroup lc (outgoingRecords ns es s)))
       \<and> map (\<lambda>e. (ge_from e, ge_to e)) (emittedFrom g s)
           = map (\<lambda>r. (be_source (snd r), be_target (snd r))) (sortedGroup lc (outgoingRecords ns es s))
       \<and> mset (sortedGroup lc (outgoingRecords ns es s)) = mset (outgoingRecords ns es s)
       \<and> (total_preorder lc \<longrightarrow>
            sorted_wrt (\<lambda>a b. lc (record_key a) (record_key b)) (sortedGroup lc (outgoingRecords ns es s)))"
proof -
  have e: "emittedFrom g s = mapGroup lc (outgoingRecords ns es s)"
    using assms by (rule emittedFrom_build)
  show ?thesis
    unfolding e
    using map_label_mapGroup [of lc "outgoingRecords ns es s"]
      emitted_endpoints [of lc "outgoingRecords ns es s"]
      sortedGroup_mset [of lc "outgoingRecords ns es s"]
      sortedGroup_sorted [of lc "outgoingRecords ns es s"]
    by blast
qed

definition labelledEdge :: "string \<Rightarrow> string \<Rightarrow> string \<Rightarrow> string \<Rightarrow> BuilderGraphEdge" where
  "labelledEdge i s t l =
     \<lparr> be_id = Some i, be_source = s, be_target = t, be_label = Some (JStr l), be_data = None \<rparr>"

definition scenarioL_edges :: "BuilderGraphEdge list" where
  "scenarioL_edges =
     [plainEdge (Some ''e2'') ''d'' ''y'', labelledEdge ''e1'' ''d'' ''x'' '' yes '', plainEdge None ''x'' ''y'']"

definition scenarioL_graph :: WorkflowGraphV11 where
  "scenarioL_graph =
     \<lparr> schemaVersion = ''1.1'', entryNodeId = ''d'',
       nodes = [plainGraphNode ''d'', plainGraphNode ''x'', plainGraphNode ''y''],
       edges = [plainGraphEdge (Some ''e1'') ''d'' ''x'' ''yes'' (Some True),
                plainGraphEdge (Some ''e2'') ''d'' ''y'' ''branch-2'' None,
                plainGraphEdge None ''x'' ''y'' ''next'' None] \<rparr>"

lemma scenarioL_result:
  "buildWorkflowGraphV11 codeUnitLe scenarioC_nodes scenarioL_edges
     = \<lparr> graph = Some scenarioL_graph, warnings = [], errors = [] \<rparr>"
  by code_simp

theorem C5_counterexample:
  "be_label (scenarioL_edges ! 1) = Some (JStr '' yes '')
   \<and> be_source (scenarioL_edges ! 1) = ''d'' \<and> be_target (scenarioL_edges ! 1) = ''x''
   \<and> graph (buildWorkflowGraphV11 codeUnitLe scenarioC_nodes scenarioL_edges) = Some scenarioL_graph
   \<and> map (\<lambda>e. (ge_to e, ge_label e)) (emittedFrom scenarioL_graph ''d'') = [(''x'', ''yes''), (''y'', ''branch-2'')]"
  by code_simp

theorem C5_edge_labels_witness:
  "graph (buildWorkflowGraphV11 codeUnitLe scenarioC_nodes scenarioL_edges) = Some scenarioL_graph
   \<and> sortedGroup codeUnitLe (outgoingRecords scenarioC_nodes scenarioL_edges ''d'')
       = [(1, labelledEdge ''e1'' ''d'' ''x'' '' yes ''), (0, plainEdge (Some ''e2'') ''d'' ''y'')]
   \<and> map ge_label (emittedFrom scenarioL_graph ''d'') = [''yes'', ''branch-2'']
   \<and> sortedGroup codeUnitLe (outgoingRecords scenarioC_nodes scenarioL_edges ''x'') = [(2, plainEdge None ''x'' ''y'')]
   \<and> map ge_label (emittedFrom scenarioL_graph ''x'') = [''next'']
   \<and> total_preorder codeUnitLe
   \<and> sorted_wrt (\<lambda>a b. codeUnitLe (record_key a) (record_key b))
        (sortedGroup codeUnitLe (outgoingRecords scenarioC_nodes scenarioL_edges ''d''))"
proof -
  have g: "graph (buildWorkflowGraphV11 codeUnitLe scenarioC_nodes scenarioL_edges) = Some scenarioL_graph"
    by (simp add: scenarioL_result)
  have d: "sortedGroup codeUnitLe (outgoingRecords scenarioC_nodes scenarioL_edges ''d'')
             = [(1, labelledEdge ''e1'' ''d'' ''x'' '' yes ''), (0, plainEdge (Some ''e2'') ''d'' ''y'')]"
    by code_simp
  have x: "sortedGroup codeUnitLe (outgoingRecords scenarioC_nodes scenarioL_edges ''x'') = [(2, plainEdge None ''x'' ''y'')]"
    by code_simp
  have ld: "length (outgoingRecords scenarioC_nodes scenarioL_edges ''d'') = 2"
    by code_simp
  have lx: "length (outgoingRecords scenarioC_nodes scenarioL_edges ''x'') = 1"
    by code_simp
  have l1: "trimmed_string (be_label (labelledEdge ''e1'' ''d'' ''x'' '' yes '')) = ''yes''"
    by code_simp
  have l2: "trimmed_string (be_label (plainEdge i s t)) = []" for i s t
    by (simp add: plainEdge_def)
  have b2: "string_of_nat (Suc (Suc 0)) = ''2''"
    by (simp add: string_of_nat.simps)
  note t = C5_edge_labels [OF g]
  have "map ge_label (emittedFrom scenarioL_graph ''d'') = [''yes'', ''branch-2'']"
    using t [of "''d''"] b2 by (simp add: d ld l1 l2 enumerate_simps)
  moreover have "map ge_label (emittedFrom scenarioL_graph ''x'') = [''next'']"
    using t [of "''x''"] by (simp add: x lx l2 enumerate_simps)
  moreover have "sorted_wrt (\<lambda>a b. codeUnitLe (record_key a) (record_key b))
        (sortedGroup codeUnitLe (outgoingRecords scenarioC_nodes scenarioL_edges ''d''))"
    using t [of "''d''"] total_preorder_codeUnitLe by blast
  ultimately show ?thesis using g d x total_preorder_codeUnitLe by blast
qed


subsection \<open>The in-degree and adjacency maps\<close>

lemma get_init_fold: "(\<And>k. get_or d m k = d) \<Longrightarrow> get_or d (fold (\<lambda>i m. AList.update i d m) ids m) k = d"
  by (induction ids arbitrary: m) (simp_all add: get_or_update)

lemma keys_init_fold: "set (map fst (fold (\<lambda>i m. AList.update i d m) ids m)) = set (map fst m) \<union> set ids"
proof (induction ids arbitrary: m)
  case Nil
  show ?case by simp
next
  case (Cons i ids)
  have "fst ` set (AList.update i d m) = {i} \<union> fst ` set m" by (rule dom_update)
  then show ?case using Cons.IH [of "AList.update i d m"] by auto
qed

lemma get_indegree_fold:
  "get_or 0 (fold (\<lambda>r m. AList.update (be_target (snd r)) (get_or 0 m (be_target (snd r)) + 1) m) ves m) t
     = get_or 0 m t + int (length (filter (\<lambda>r. be_target (snd r) = t) ves))"
  by (induction ves arbitrary: m) (auto simp: get_or_update)

lemma get_indegree:
  "get_or 0 (indegree_of nodeIds ves) t = int (length (filter (\<lambda>r. be_target (snd r) = t) ves))"
proof -
  have "get_or (0::int) (fold (\<lambda>i m. AList.update i 0 m) nodeIds []) t = 0"
    by (rule get_init_fold) (simp add: get_or_def)
  then show ?thesis by (simp add: indegree_of_def get_indegree_fold)
qed

lemma get_outgoing_fold:
  assumes "\<And>r. r \<in> set ves \<Longrightarrow> be_source (snd r) \<in> set (map fst m)"
  shows "get_or [] (fold (\<lambda>r m. case map_of m (be_source (snd r)) of
                    Some ts \<Rightarrow> AList.update (be_source (snd r)) (ts @ [be_target (snd r)]) m
                  | None \<Rightarrow> m) ves m) i
     = get_or [] m i @ map (\<lambda>r. be_target (snd r)) (filter (\<lambda>r. be_source (snd r) = i) ves)"
  using assms
proof (induction ves arbitrary: m)
  case Nil
  show ?case by simp
next
  case (Cons r ves)
  from Cons.prems [of r] have "map_of m (be_source (snd r)) \<noteq> None"
    by (simp add: map_of_eq_None_iff)
  then obtain ts where ts: "map_of m (be_source (snd r)) = Some ts" by auto
  let ?m = "AList.update (be_source (snd r)) (ts @ [be_target (snd r)]) m"
  have "fst ` set ?m = {be_source (snd r)} \<union> fst ` set m" by (rule dom_update)
  with Cons.prems have k: "\<And>r'. r' \<in> set ves \<Longrightarrow> be_source (snd r') \<in> set (map fst ?m)" by auto
  have g: "get_or [] ?m i = (if i = be_source (snd r) then ts @ [be_target (snd r)] else get_or [] m i)"
    by (rule get_or_update)
  from ts have g0: "get_or [] m (be_source (snd r)) = ts" by (simp add: get_or_def)
  from Cons.IH [OF k] ts g g0 show ?case by auto
qed

lemma get_outgoing:
  assumes "\<And>r. r \<in> set ves \<Longrightarrow> be_source (snd r) \<in> set nodeIds"
  shows "get_or [] (outgoing_of nodeIds ves) i
           = map (\<lambda>r. be_target (snd r)) (filter (\<lambda>r. be_source (snd r) = i) ves)"
proof -
  let ?m = "fold (\<lambda>i m. AList.update i [] m) nodeIds ([] :: (string \<times> string list) list)"
  have k: "set (map fst ?m) = set nodeIds" using keys_init_fold [of "[]" nodeIds "[]"] by simp
  have e: "get_or [] ?m i = []" by (rule get_init_fold) (simp add: get_or_def)
  from get_outgoing_fold [of ves ?m i] assms k e show ?thesis
    by (simp add: outgoing_of_def)
qed

subsection \<open>The traversal\<close>

lemma relax_get:
  "relax t (m, q) = (AList.update t (get_or 0 m t - 1) m, if get_or 0 m t - 1 = 0 then q @ [t] else q)"
  by (simp add: relax_def Let_def)

lemma fold_relax_spec:
  "fold relax ts (m, q) = (m', q') \<Longrightarrow>
     (\<forall>x. get_or 0 m' x = get_or 0 m x - int (count_list ts x))
     \<and> (\<exists>p. q' = q @ p \<and> distinct p \<and> set p \<subseteq> set ts
              \<and> (\<forall>x \<in> set p. 1 \<le> get_or 0 m x \<and> get_or 0 m' x \<le> 0))"
proof (induction ts arbitrary: m q)
  case Nil
  then show ?case by simp
next
  case (Cons t ts)
  let ?m1 = "AList.update t (get_or 0 m t - 1) m"
  let ?q1 = "if get_or 0 m t - 1 = 0 then q @ [t] else q"
  from Cons.prems have f: "fold relax ts (?m1, ?q1) = (m', q')" by (simp add: relax_get)
  from Cons.IH [OF f] obtain p where
    a: "\<And>x. get_or 0 m' x = get_or 0 ?m1 x - int (count_list ts x)"
    and p: "q' = ?q1 @ p" "distinct p" "set p \<subseteq> set ts"
    and b: "\<And>x. x \<in> set p \<Longrightarrow> 1 \<le> get_or 0 ?m1 x \<and> get_or 0 m' x \<le> 0"
    by blast
  have m1: "\<And>x. get_or 0 ?m1 x = (if x = t then get_or 0 m t - 1 else get_or 0 m x)"
    by (simp add: get_or_update)
  have acc: "\<forall>x. get_or 0 m' x = get_or 0 m x - int (count_list (t # ts) x)"
    using a m1 by simp
  show ?case
  proof (cases "get_or 0 m t - 1 = 0")
    case True
    from b m1 True have tp: "t \<notin> set p" by force
    have bt: "1 \<le> get_or 0 m t \<and> get_or 0 m' t \<le> 0" using True a [of t] m1 [of t] by simp
    have bp: "\<And>x. x \<in> set p \<Longrightarrow> 1 \<le> get_or 0 m x \<and> get_or 0 m' x \<le> 0"
      using b m1 tp by (metis)
    have "q' = q @ (t # p)" using p(1) True by simp
    moreover have "distinct (t # p)" using tp p(2) by simp
    moreover have "set (t # p) \<subseteq> set (t # ts)" using p(3) by auto
    moreover have "\<forall>x \<in> set (t # p). 1 \<le> get_or 0 m x \<and> get_or 0 m' x \<le> 0" using bt bp by simp
    ultimately show ?thesis using acc by blast
  next
    case False
    have bp: "\<And>x. x \<in> set p \<Longrightarrow> 1 \<le> get_or 0 m x \<and> get_or 0 m' x \<le> 0"
    proof -
      fix x assume x: "x \<in> set p"
      from b [OF x] m1 [of x] show "1 \<le> get_or 0 m x \<and> get_or 0 m' x \<le> 0"
        by (cases "x = t") auto
    qed
    have "q' = q @ p" using p(1) False by simp
    moreover have "set p \<subseteq> set (t # ts)" using p(3) by auto
    ultimately show ?thesis using acc p(2) bp by blast
  qed
qed

lemma remaining_step:
  "i \<notin> set D \<Longrightarrow>
     int (length (filter (\<lambda>r. be_target (snd r) = t \<and> be_source (snd r) \<notin> set D) ves))
       - int (count_list (map (\<lambda>r. be_target (snd r)) (filter (\<lambda>r. be_source (snd r) = i) ves)) t)
     = int (length (filter (\<lambda>r. be_target (snd r) = t \<and> be_source (snd r) \<notin> set (D @ [i])) ves))"
  by (induction ves) auto


text \<open>
  The invariant of the traversal. \<open>D\<close> lists the nodes taken from the queue so far; the
  counter of a node is the number of valid edges into it whose source is not in \<open>D\<close>.
  \<open>C\<close> is any set of nodes each of which has a predecessor in \<open>C\<close>: none of them is ever
  put in the queue.
\<close>

lemma kahn_bound:
  assumes tN: "\<And>r. r \<in> set ves \<Longrightarrow> be_target (snd r) \<in> N"
    and C: "\<And>c. c \<in> C \<Longrightarrow> \<exists>r \<in> set ves. be_target (snd r) = c \<and> be_source (snd r) \<in> C"
    and fin: "finite N"
  shows "(\<And>i. get_or [] outgoing i = map (\<lambda>r. be_target (snd r)) (filter (\<lambda>r. be_source (snd r) = i) ves)) \<Longrightarrow>
         distinct (D @ q) \<Longrightarrow> set (D @ q) \<subseteq> N - C \<Longrightarrow>
         (\<And>t. get_or 0 nI t = int (length (filter (\<lambda>r. be_target (snd r) = t \<and> be_source (snd r) \<notin> set D) ves))) \<Longrightarrow>
         (\<And>t. t \<in> set (D @ q) \<Longrightarrow> get_or 0 nI t \<le> 0) \<Longrightarrow>
         visited = length D \<Longrightarrow>
         kahn outgoing q nI visited \<le> card (N - C)"
proof (induction outgoing q nI visited arbitrary: D rule: kahn.induct)
  case (1 outgoing nI visited)
  from "1.prems"(2) have "card (set D) = length D" by (simp add: distinct_card)
  moreover from "1.prems"(3) fin have "card (set D) \<le> card (N - C)" by (intro card_mono) auto
  ultimately show ?case using "1.prems"(6) by (simp add: kahn.simps)
next
  case (2 outgoing i queue nI visited)
  note out = "2.prems"(1) and dist = "2.prems"(2) and sub = "2.prems"(3)
    and acc = "2.prems"(4) and low = "2.prems"(5) and vis = "2.prems"(6)
  have dD: "distinct D" using dist by simp
  have cardD: "length D \<le> card (N - C)"
  proof -
    from dD have "card (set D) = length D" by (simp add: distinct_card)
    moreover from sub fin have "card (set D) \<le> card (N - C)" by (intro card_mono) auto
    ultimately show ?thesis by simp
  qed
  show ?case
  proof (cases "i = []")
    case True
    with cardD vis show ?thesis by (simp add: kahn.simps)
  next
    case False
    let ?ts = "get_or [] outgoing i"
    obtain nI' q' where f: "fold relax ?ts (nI, queue) = (nI', q')"
      by (cases "fold relax ?ts (nI, queue)")
    from fold_relax_spec [OF f] obtain p where
      a: "\<And>x. get_or 0 nI' x = get_or 0 nI x - int (count_list ?ts x)"
      and q': "q' = queue @ p" and dp: "distinct p" and sp: "set p \<subseteq> set ?ts"
      and b: "\<And>x. x \<in> set p \<Longrightarrow> 1 \<le> get_or 0 nI x \<and> get_or 0 nI' x \<le> 0"
      by blast
    let ?D = "D @ [i]"
    have iD: "i \<notin> set D" using dist by simp
    have acc': "\<And>t. get_or 0 nI' t
                 = int (length (filter (\<lambda>r. be_target (snd r) = t \<and> be_source (snd r) \<notin> set ?D) ves))"
      using a acc out remaining_step [OF iD] by simp
    have p_new: "\<And>x. x \<in> set p \<Longrightarrow> x \<notin> set (D @ i # queue)"
    proof
      fix x assume "x \<in> set p" and "x \<in> set (D @ i # queue)"
      with b [of x] low [of x] show False by simp
    qed
    have dist': "distinct (?D @ q')"
      using dist dp p_new unfolding q' by auto
    have DN: "set ?D \<subseteq> N - C" using sub by auto
    have p_N: "set p \<subseteq> N"
    proof
      fix x assume "x \<in> set p"
      with sp have "x \<in> set ?ts" by auto
      then show "x \<in> N" using tN by (auto simp: out)
    qed
    have p_C: "\<And>x. x \<in> set p \<Longrightarrow> x \<notin> C"
    proof
      fix x assume xp: "x \<in> set p" and xC: "x \<in> C"
      from C [OF xC] obtain r where r: "r \<in> set ves" "be_target (snd r) = x" "be_source (snd r) \<in> C"
        by blast
      from r(3) DN have "be_source (snd r) \<notin> set ?D" by auto
      with r have "filter (\<lambda>r. be_target (snd r) = x \<and> be_source (snd r) \<notin> set ?D) ves \<noteq> []"
        by (auto simp: filter_empty_conv)
      then have "0 < length (filter (\<lambda>r. be_target (snd r) = x \<and> be_source (snd r) \<notin> set ?D) ves)"
        by simp
      with acc' [of x] b [OF xp] show False by simp
    qed
    have sub': "set (?D @ q') \<subseteq> N - C"
      using sub p_N p_C unfolding q' by auto
    have low': "\<And>t. t \<in> set (?D @ q') \<Longrightarrow> get_or 0 nI' t \<le> 0"
    proof -
      fix t assume "t \<in> set (?D @ q')"
      then have "t \<in> set (D @ i # queue) \<or> t \<in> set p" unfolding q' by auto
      then show "get_or 0 nI' t \<le> 0"
      proof
        assume "t \<in> set (D @ i # queue)"
        from low [OF this] a [of t] show ?thesis by simp
      next
        assume "t \<in> set p"
        from b [OF this] show ?thesis by simp
      qed
    qed
    have "kahn outgoing q' nI' (visited + 1) \<le> card (N - C)"
      using "2.IH" [OF False f [symmetric] out dist' sub' acc' low'] vis by simp
    with False f show ?thesis by (simp add: kahn.simps)
  qed
qed


subsection \<open>Cycles\<close>

text \<open>The relation of the valid edges of the input, and the one of the emitted edges.\<close>

definition edgeRel :: "BuilderGraphNode list \<Rightarrow> BuilderGraphEdge list \<Rightarrow> (string \<times> string) set" where
  "edgeRel ns es = (\<lambda>r. (be_source (snd r), be_target (snd r))) ` set (validEdges_of (nodesById_of ns) es)"

definition graphRel :: "WorkflowGraphV11 \<Rightarrow> (string \<times> string) set" where
  "graphRel g = (\<lambda>e. (ge_from e, ge_to e)) ` set (edges g)"

lemma visited_bound:
  assumes C: "\<And>c. c \<in> C \<Longrightarrow>
      \<exists>r \<in> set (validEdges_of (nodesById_of ns) es). be_target (snd r) = c \<and> be_source (snd r) \<in> C"
  shows "visited_of (map fst (nodesById_of ns)) (validEdges_of (nodesById_of ns) es)
           \<le> card (set (map fst (nodesById_of ns)) - C)"
proof -
  let ?N = "map fst (nodesById_of ns)"
  let ?ves = "validEdges_of (nodesById_of ns) es"
  let ?ind = "indegree_of ?N ?ves"
  let ?q = "filter (\<lambda>i. get_or 0 ?ind i = 0) ?N"
  have tN: "\<And>r. r \<in> set ?ves \<Longrightarrow> be_target (snd r) \<in> set ?N" by (rule validEdges_mem(2))
  have out: "\<And>i. get_or [] (outgoing_of ?N ?ves) i
               = map (\<lambda>r. be_target (snd r)) (filter (\<lambda>r. be_source (snd r) = i) ?ves)"
    by (rule get_outgoing) (rule validEdges_mem(1))
  have dist: "distinct ([] @ ?q)" using distinct_nodesById [of ns] by (simp add: distinct_map)
  have qC: "\<And>c. c \<in> set ?q \<Longrightarrow> c \<notin> C"
  proof
    fix c assume cq: "c \<in> set ?q" and "c \<in> C"
    from C [OF this(2)] obtain r where "r \<in> set ?ves" "be_target (snd r) = c" by blast
    then have "filter (\<lambda>r. be_target (snd r) = c) ?ves \<noteq> []" by (auto simp: filter_empty_conv)
    then have "0 < length (filter (\<lambda>r. be_target (snd r) = c) ?ves)" by simp
    with cq show False by (simp add: get_indegree)
  qed
  have sub: "set ([] @ ?q) \<subseteq> set ?N - C" using qC by auto
  have acc: "\<And>t. get_or 0 ?ind t
               = int (length (filter (\<lambda>r. be_target (snd r) = t \<and> be_source (snd r) \<notin> set []) ?ves))"
    by (simp add: get_indegree)
  have low: "\<And>t. t \<in> set ([] @ ?q) \<Longrightarrow> get_or 0 ?ind t \<le> 0" by simp
  have "kahn (outgoing_of ?N ?ves) ?q ?ind 0 \<le> card (set ?N - C)"
    by (rule kahn_bound [of ?ves "set ?N" C _ "[]", OF tN C _ out dist sub acc low]) simp_all
  then show ?thesis by (simp add: visited_of_def Let_def)
qed

lemma visited_le: "visited_of (map fst (nodesById_of ns)) (validEdges_of (nodesById_of ns) es)
                     \<le> length (map fst (nodesById_of ns))"
proof -
  have "visited_of (map fst (nodesById_of ns)) (validEdges_of (nodesById_of ns) es)
          \<le> card (set (map fst (nodesById_of ns)) - {})"
    by (rule visited_bound) simp
  also have "\<dots> = length (map fst (nodesById_of ns))"
    using distinct_nodesById [of ns] by (simp add: distinct_card del: set_map length_map)
  finally show ?thesis .
qed

lemma visited_cycle:
  assumes "(n, n) \<in> (edgeRel ns es)\<^sup>+"
  shows "visited_of (map fst (nodesById_of ns)) (validEdges_of (nodesById_of ns) es)
           < length (map fst (nodesById_of ns))"
proof -
  let ?N = "map fst (nodesById_of ns)"
  let ?ves = "validEdges_of (nodesById_of ns) es"
  let ?R = "edgeRel ns es"
  let ?C = "{c. (c, c) \<in> ?R\<^sup>+}"
  have C: "\<exists>r \<in> set ?ves. be_target (snd r) = c \<and> be_source (snd r) \<in> ?C" if "c \<in> ?C" for c
  proof -
    from that have "(c, c) \<in> ?R\<^sup>+" by simp
    then obtain z where z: "(c, z) \<in> ?R\<^sup>*" "(z, c) \<in> ?R" by (blast dest: tranclD2)
    then have "(z, z) \<in> ?R\<^sup>+" by (meson rtrancl_into_trancl2)
    moreover from z(2) obtain r where "r \<in> set ?ves" "be_source (snd r) = z" "be_target (snd r) = c"
      by (auto simp: edgeRel_def)
    ultimately show ?thesis by blast
  qed
  from assms have nC: "n \<in> ?C" by simp
  from C [OF nC] have nN: "n \<in> set ?N" using validEdges_mem(2) by blast
  have "card (set ?N - ?C) < card (set ?N)"
    by (rule psubset_card_mono) (use nC nN in auto)
  also have "\<dots> = length ?N"
    using distinct_nodesById [of ns] by (simp add: distinct_card del: set_map length_map)
  finally show ?thesis using visited_bound [of ?C ns es, OF C] by simp
qed

subsection \<open>The errors of a compilation\<close>

lemma build_errors:
  "errors (buildWorkflowGraphV11 lc ns es) = (if ns = [] then [NoNodes] else graphErrors_of lc ns es)"
  by (simp add: buildWorkflowGraphV11_def Let_def)

lemma build_None: "graph (buildWorkflowGraphV11 lc ns es) = None \<longleftrightarrow> ns = [] \<or> graphErrors_of lc ns es \<noteq> []"
  by (simp add: buildWorkflowGraphV11_def Let_def)

lemma edge_problem_range:
  "edge_problem nodesById r = Some e \<Longrightarrow>
     e = IncompleteEdge (fst r) \<or> e = EdgeSourceMissing (be_source (snd r)) (fst r)
     \<or> e = EdgeTargetMissing (be_target (snd r)) (fst r)"
  by (cases r) (auto simp: edge_problem_def split: if_splits)

lemma edge_errors_range:
  assumes "e \<in> set (edge_errors_of nodesById es)"
  shows "e \<noteq> CycleDetected \<and> e \<noteq> NoEntryNode \<and> e \<noteq> NoNodes"
proof -
  from assms obtain r where "edge_problem nodesById r = Some e"
    by (auto simp: edge_errors_of_def List.map_filter_def)
  from edge_problem_range [OF this] show ?thesis by auto
qed

lemma cycle_error_iff:
  "CycleDetected \<in> set (graphErrors_of lc ns es) \<longleftrightarrow>
     validEdges_of (nodesById_of ns) es \<noteq> []
     \<and> visited_of (map fst (nodesById_of ns)) (validEdges_of (nodesById_of ns) es)
         \<noteq> length (map fst (nodesById_of ns))"
  using edge_errors_range [of CycleDetected "nodesById_of ns" es]
  by (auto simp: graphErrors_of_def Let_def)

lemma entry_error_iff:
  "NoEntryNode \<in> set (graphErrors_of lc ns es) \<longleftrightarrow>
     entry_of (startNodes_of lc (map fst (nodesById_of ns))
       (indegree_of (map fst (nodesById_of ns)) (validEdges_of (nodesById_of ns) es))) = []"
  using edge_errors_range [of NoEntryNode "nodesById_of ns" es]
  by (auto simp: graphErrors_of_def Let_def)

lemma validEdges_no_nodes: "validEdges_of (nodesById_of []) es = []"
  by (auto simp: validEdges_of_def nodesById_of_def filter_empty_conv edge_problem_def)

lemma emitted_pairs:
  "(\<lambda>e. (ge_from e, ge_to e)) ` set (mappedEdges_of lc ves) = (\<lambda>r. (be_source (snd r), be_target (snd r))) ` set ves"
proof (intro equalityI subsetI)
  fix x assume "x \<in> (\<lambda>e. (ge_from e, ge_to e)) ` set (mappedEdges_of lc ves)"
  then obtain e where e: "e \<in> set (mappedEdges_of lc ves)" and x: "x = (ge_from e, ge_to e)" by auto
  let ?b = "filter (\<lambda>r. be_source (snd r) = ge_from e) ves"
  from e have "e \<in> set (filter (\<lambda>e'. ge_from e' = ge_from e) (mappedEdges_of lc ves))" by simp
  then have "e \<in> set (mapGroup lc ?b)" by (simp add: emitted_from)
  then have "x \<in> set (map (\<lambda>e. (ge_from e, ge_to e)) (mapGroup lc ?b))" using x by auto
  then have "x \<in> (\<lambda>r. (be_source (snd r), be_target (snd r))) ` set ?b"
    by (simp add: emitted_endpoints sortedGroup_set)
  then obtain r where "r \<in> set ves" "x = (be_source (snd r), be_target (snd r))" by auto
  then show "x \<in> (\<lambda>r. (be_source (snd r), be_target (snd r))) ` set ves" by (rule_tac image_eqI)
next
  fix x assume "x \<in> (\<lambda>r. (be_source (snd r), be_target (snd r))) ` set ves"
  then obtain r where r: "r \<in> set ves" and x: "x = (be_source (snd r), be_target (snd r))" by auto
  let ?b = "filter (\<lambda>r'. be_source (snd r') = be_source (snd r)) ves"
  from r have "r \<in> set ?b" by simp
  then have "x \<in> (\<lambda>r. (be_source (snd r), be_target (snd r))) ` set (sortedGroup lc ?b)"
    using x by (simp add: sortedGroup_set)
  then have "x \<in> set (map (\<lambda>e. (ge_from e, ge_to e)) (mapGroup lc ?b))"
    by (simp add: emitted_endpoints)
  then have "x \<in> (\<lambda>e. (ge_from e, ge_to e)) ` set (filter (\<lambda>e'. ge_from e' = be_source (snd r)) (mappedEdges_of lc ves))"
    by (simp add: emitted_from)
  then obtain e where "e \<in> set (mappedEdges_of lc ves)" "x = (ge_from e, ge_to e)" by auto
  then show "x \<in> (\<lambda>e. (ge_from e, ge_to e)) ` set (mappedEdges_of lc ves)" by (rule_tac image_eqI)
qed

lemma graphRel_build:
  "graph (buildWorkflowGraphV11 lc ns es) = Some g \<Longrightarrow> graphRel g = edgeRel ns es"
  by (simp add: graphRel_def edgeRel_def build_edges emitted_pairs)

text \<open>
  C2. When the valid edges of the input contain a directed cycle, the compilation
  returns no graph and reports the cycle. The traversal never counts more nodes than
  there are; the cycle is reported exactly when there is a valid edge and the traversal
  counts fewer nodes than there are. The edges of a compiled graph are the valid edges
  of the input, and they are acyclic.
\<close>

theorem C2_cycle_detection:
  "((\<exists>n. (n, n) \<in> (edgeRel ns es)\<^sup>+) \<longrightarrow>
       graph (buildWorkflowGraphV11 lc ns es) = None
       \<and> CycleDetected \<in> set (errors (buildWorkflowGraphV11 lc ns es)))
   \<and> visited_of (map fst (nodesById_of ns)) (validEdges_of (nodesById_of ns) es)
       \<le> length (map fst (nodesById_of ns))
   \<and> (CycleDetected \<in> set (errors (buildWorkflowGraphV11 lc ns es)) \<longleftrightarrow>
        validEdges_of (nodesById_of ns) es \<noteq> []
        \<and> visited_of (map fst (nodesById_of ns)) (validEdges_of (nodesById_of ns) es)
            < length (map fst (nodesById_of ns)))
   \<and> (\<forall>g. graph (buildWorkflowGraphV11 lc ns es) = Some g \<longrightarrow>
        graphRel g = edgeRel ns es \<and> acyclic (graphRel g))"
proof -
  let ?R = "buildWorkflowGraphV11 lc ns es"
  let ?N = "map fst (nodesById_of ns)"
  let ?ves = "validEdges_of (nodesById_of ns) es"
  have le: "visited_of ?N ?ves \<le> length ?N" by (rule visited_le)
  have iff: "CycleDetected \<in> set (errors ?R) \<longleftrightarrow> ?ves \<noteq> [] \<and> visited_of ?N ?ves < length ?N"
  proof (cases "ns = []")
    case True
    then show ?thesis by (simp add: build_errors validEdges_no_nodes)
  next
    case False
    with le show ?thesis by (auto simp: build_errors cycle_error_iff simp del: length_map)
  qed
  have cyc: "graph ?R = None \<and> CycleDetected \<in> set (errors ?R)" if "(n, n) \<in> (edgeRel ns es)\<^sup>+" for n
  proof -
    from that have "edgeRel ns es \<noteq> {}" by auto
    then have ne: "?ves \<noteq> []" by (auto simp: edgeRel_def)
    with visited_cycle [OF that] iff have c: "CycleDetected \<in> set (errors ?R)" by blast
    then have "ns = [] \<or> graphErrors_of lc ns es \<noteq> []" by (auto simp: build_errors split: if_splits)
    with c show ?thesis by (simp add: build_None)
  qed
  have acy: "graphRel g = edgeRel ns es \<and> acyclic (graphRel g)" if g: "graph ?R = Some g" for g
  proof -
    have r: "graphRel g = edgeRel ns es" using g by (rule graphRel_build)
    have "(n, n) \<notin> (edgeRel ns es)\<^sup>+" for n using cyc [of n] g by auto
    with r show ?thesis by (simp add: acyclic_def)
  qed
  from le iff cyc acy show ?thesis by blast
qed

definition scenarioD_nodes :: "BuilderGraphNode list" where
  "scenarioD_nodes = [plainNode ''a'', plainNode ''b'']"

definition scenarioD_edges :: "BuilderGraphEdge list" where
  "scenarioD_edges = [plainEdge None ''a'' ''b'', plainEdge None ''b'' ''a'']"


theorem C2_cycle_detection_witness:
  "(''a'', ''a'') \<in> (edgeRel scenarioD_nodes scenarioD_edges)\<^sup>+
   \<and> graph (buildWorkflowGraphV11 codeUnitLe scenarioD_nodes scenarioD_edges) = None
   \<and> CycleDetected \<in> set (errors (buildWorkflowGraphV11 codeUnitLe scenarioD_nodes scenarioD_edges))
   \<and> validEdges_of (nodesById_of scenarioD_nodes) scenarioD_edges \<noteq> []
   \<and> visited_of (map fst (nodesById_of scenarioD_nodes)) (validEdges_of (nodesById_of scenarioD_nodes) scenarioD_edges)
       < length (map fst (nodesById_of scenarioD_nodes))
   \<and> graph (buildWorkflowGraphV11 codeUnitLe scenarioC_nodes scenarioC_edges) = Some scenarioC_graph
   \<and> acyclic (graphRel scenarioC_graph)"
proof -
  have ab: "(''a'', ''b'') \<in> edgeRel scenarioD_nodes scenarioD_edges"
    and ba: "(''b'', ''a'') \<in> edgeRel scenarioD_nodes scenarioD_edges"
    by code_simp+
  then have c: "(''a'', ''a'') \<in> (edgeRel scenarioD_nodes scenarioD_edges)\<^sup>+"
    by (meson trancl.intros)
  have g: "graph (buildWorkflowGraphV11 codeUnitLe scenarioC_nodes scenarioC_edges) = Some scenarioC_graph"
    by (simp add: scenarioC_result)
  from C2_cycle_detection [of scenarioD_nodes scenarioD_edges codeUnitLe] c
    C2_cycle_detection [of scenarioC_nodes scenarioC_edges codeUnitLe] g
  show ?thesis by blast
qed


subsection \<open>The entry node\<close>

text \<open>The in-degree of a node with respect to the valid edges, and the nodes of in-degree 0.\<close>

definition inDegree :: "BuilderGraphNode list \<Rightarrow> BuilderGraphEdge list \<Rightarrow> string \<Rightarrow> nat" where
  "inDegree ns es i = length (filter (\<lambda>r. be_target (snd r) = i) (validEdges_of (nodesById_of ns) es))"

definition entryCandidates :: "BuilderGraphNode list \<Rightarrow> BuilderGraphEdge list \<Rightarrow> string list" where
  "entryCandidates ns es = filter (\<lambda>i. inDegree ns es i = 0) (map fst (nodesById_of ns))"

lemma startNodes_candidates:
  "startNodes_of lc (map fst (nodesById_of ns))
       (indegree_of (map fst (nodesById_of ns)) (validEdges_of (nodesById_of ns) es))
     = stable_sort lc (entryCandidates ns es)"
  by (simp add: startNodes_of_def entryCandidates_def inDegree_def get_indegree)

lemma entry_of_sorted: "entry_of (stable_sort lc xs) = (if xs = [] then [] else hd (stable_sort lc xs))"
proof (cases "stable_sort lc xs")
  case Nil
  then have "xs = []" by (simp add: stable_sort_eq_Nil)
  with Nil show ?thesis by (simp add: entry_of_def)
next
  case (Cons y ys)
  then have "xs \<noteq> []" by (auto simp: stable_sort_Nil)
  with Cons show ?thesis by (simp add: entry_of_def)
qed

lemma candidates_nonempty_ids: "c \<in> set (entryCandidates ns es) \<Longrightarrow> c \<noteq> []"
  using nodesById_keys_nonempty [of c ns] by (auto simp: entryCandidates_def)

lemma entry_in_candidates:
  assumes "entryCandidates ns es \<noteq> []"
  shows "hd (stable_sort lc (entryCandidates ns es)) \<in> set (entryCandidates ns es)"
proof -
  from assms have "stable_sort lc (entryCandidates ns es) \<noteq> []" by (simp add: stable_sort_eq_Nil)
  then have "hd (stable_sort lc (entryCandidates ns es)) \<in> set (stable_sort lc (entryCandidates ns es))"
    by (rule hd_in_set)
  then show ?thesis by (simp add: set_stable_sort)
qed

lemma nodeTypeWarnings_range: "w \<in> set (nodeTypeWarnings nodesById i) \<Longrightarrow> \<exists>v. w = UnknownNodeType i v"
  by (auto simp: nodeTypeWarnings_def split: option.splits if_splits)

lemma groupWarnings_range: "w \<in> set (groupWarnings lc s bucket) \<Longrightarrow> \<exists>ids. w = MultipleDefaultEdges s ids"
  by (auto simp: groupWarnings_def Let_def split: if_splits)

lemma defaultWarnings_range: "w \<in> set (defaultWarnings_of lc ves) \<Longrightarrow> \<exists>s ids. w = MultipleDefaultEdges s ids"
  by (auto simp: defaultWarnings_of_def Let_def dest: groupWarnings_range)

lemma multi_start_warning:
  assumes "graph (buildWorkflowGraphV11 lc ns es) = Some g"
  shows "MultipleStartNodes x \<in> set (warnings (buildWorkflowGraphV11 lc ns es))
           \<longleftrightarrow> 1 < length (entryCandidates ns es) \<and> x = entryNodeId g"
proof -
  from assms have ok: "ns \<noteq> []" "graphErrors_of lc ns es = []" by (simp_all add: build_Some)
  from assms have en: "entryNodeId g = entry_of (stable_sort lc (entryCandidates ns es))"
    by (simp add: build_Some startNodes_candidates)
  have w: "warnings (buildWorkflowGraphV11 lc ns es)
             = earlyWarnings_of lc ns es
               @ concat (map (nodeTypeWarnings (nodesById_of ns)) (stable_sort lc (map fst (nodesById_of ns))))
               @ defaultWarnings_of lc (validEdges_of (nodesById_of ns) es)"
    using ok by (simp add: buildWorkflowGraphV11_def Let_def)
  have a: "MultipleStartNodes x \<notin> set (concat (map (nodeTypeWarnings (nodesById_of ns)) ids))" for ids
    by (auto dest: nodeTypeWarnings_range)
  have b: "MultipleStartNodes x \<notin> set (defaultWarnings_of lc ves)" for ves
    by (auto dest: defaultWarnings_range)
  have c: "MultipleStartNodes x \<in> set (earlyWarnings_of lc ns es)
             \<longleftrightarrow> 1 < length (entryCandidates ns es) \<and> x = entry_of (stable_sort lc (entryCandidates ns es))"
    by (auto simp: earlyWarnings_of_def Let_def startNodes_candidates length_stable_sort)
  from a b c show ?thesis unfolding w en by simp
qed

lemma mapNode_id: "gn_id (mapNode nodesById i) = i"
  by (simp add: mapNode_def Let_def)

lemma build_node_ids:
  assumes "graph (buildWorkflowGraphV11 lc ns es) = Some g"
  shows "map gn_id (nodes g) = stable_sort lc (map fst (nodesById_of ns))"
proof -
  have "map gn_id (map (mapNode m) xs) = xs" for m xs
    by (induction xs) (simp_all add: mapNode_id)
  with assms show ?thesis by (simp add: build_Some)
qed

text \<open>
  C4 (as amended). The entry node of a compiled graph is a node of in-degree 0 with
  respect to the valid edges of the input, and a node of the graph; it compares below
  every node of in-degree 0 when \<open>localeCompare\<close> is a total preorder; the warning about
  several start nodes is emitted, naming it, exactly when more than one node has
  in-degree 0. When the node list is not empty and no node has in-degree 0, the
  compilation returns no graph and reports that no entry node could be determined.
\<close>

theorem C4_entry_node:
  "(\<forall>g. graph (buildWorkflowGraphV11 lc ns es) = Some g \<longrightarrow>
        entryNodeId g \<in> set (entryCandidates ns es)
        \<and> inDegree ns es (entryNodeId g) = 0
        \<and> entryNodeId g \<in> set (map gn_id (nodes g))
        \<and> (total_preorder lc \<longrightarrow> (\<forall>c \<in> set (entryCandidates ns es). lc (entryNodeId g) c))
        \<and> (1 < length (entryCandidates ns es)
             \<longleftrightarrow> MultipleStartNodes (entryNodeId g) \<in> set (warnings (buildWorkflowGraphV11 lc ns es))))
   \<and> (ns \<noteq> [] \<and> entryCandidates ns es = [] \<longrightarrow>
        graph (buildWorkflowGraphV11 lc ns es) = None
        \<and> NoEntryNode \<in> set (errors (buildWorkflowGraphV11 lc ns es)))"
proof -
  let ?R = "buildWorkflowGraphV11 lc ns es"
  let ?cs = "entryCandidates ns es"
  have none: "graph ?R = None \<and> NoEntryNode \<in> set (errors ?R)" if "ns \<noteq> []" "?cs = []"
  proof -
    from that(2) have "NoEntryNode \<in> set (graphErrors_of lc ns es)"
      by (simp add: entry_error_iff startNodes_candidates entry_of_sorted)
    with that(1) show ?thesis by (auto simp: build_errors build_None)
  qed
  have some: "entryNodeId g \<in> set ?cs \<and> inDegree ns es (entryNodeId g) = 0
        \<and> entryNodeId g \<in> set (map gn_id (nodes g))
        \<and> (total_preorder lc \<longrightarrow> (\<forall>c \<in> set ?cs. lc (entryNodeId g) c))
        \<and> (1 < length ?cs \<longleftrightarrow> MultipleStartNodes (entryNodeId g) \<in> set (warnings ?R))"
    if g: "graph ?R = Some g" for g
  proof -
    from g have ok: "ns \<noteq> []" "graphErrors_of lc ns es = []" by (simp_all add: build_Some)
    from g have en: "entryNodeId g = entry_of (stable_sort lc ?cs)"
      by (simp add: build_Some startNodes_candidates)
    from ok(2) have "NoEntryNode \<notin> set (graphErrors_of lc ns es)" by simp
    then have ne: "entry_of (stable_sort lc ?cs) \<noteq> []"
      by (simp add: entry_error_iff startNodes_candidates)
    then have cs: "?cs \<noteq> []" by (auto simp: entry_of_sorted)
    with en have hd: "entryNodeId g = hd (stable_sort lc ?cs)" by (simp add: entry_of_sorted)
    with entry_in_candidates [OF cs, of lc] have mem: "entryNodeId g \<in> set ?cs" by simp
    then have deg: "inDegree ns es (entryNodeId g) = 0" by (simp add: entryCandidates_def)
    from mem have "entryNodeId g \<in> set (map fst (nodesById_of ns))" by (simp add: entryCandidates_def)
    then have node: "entryNodeId g \<in> set (map gn_id (nodes g))"
      by (simp only: build_node_ids [OF g] set_stable_sort)
    have least: "lc (entryNodeId g) c" if "total_preorder lc" "c \<in> set ?cs" for c
      using hd_stable_sort_least [OF that] hd by simp
    from multi_start_warning [OF g, of "entryNodeId g"] mem deg node least show ?thesis by blast
  qed
  from none some show ?thesis by blast
qed

definition scenarioE_nodes :: "BuilderGraphNode list" where
  "scenarioE_nodes = [plainNode ''b'', plainNode ''a'', plainNode ''c'']"

definition scenarioE_edges :: "BuilderGraphEdge list" where
  "scenarioE_edges = [plainEdge None ''a'' ''c'', plainEdge None ''b'' ''c'']"

definition scenarioE_graph :: WorkflowGraphV11 where
  "scenarioE_graph =
     \<lparr> schemaVersion = ''1.1'', entryNodeId = ''a'',
       nodes = [plainGraphNode ''a'', plainGraphNode ''b'', plainGraphNode ''c''],
       edges = [plainGraphEdge None ''a'' ''c'' ''next'' None, plainGraphEdge None ''b'' ''c'' ''next'' None] \<rparr>"

lemma scenarioE_result:
  "buildWorkflowGraphV11 codeUnitLe scenarioE_nodes scenarioE_edges
     = \<lparr> graph = Some scenarioE_graph, warnings = [MultipleStartNodes ''a''], errors = [] \<rparr>"
  by code_simp

theorem C4_counterexample:
  "entryCandidates [] [] = []
   \<and> graph (buildWorkflowGraphV11 codeUnitLe [] []) = None
   \<and> errors (buildWorkflowGraphV11 codeUnitLe [] []) = [NoNodes]
   \<and> NoEntryNode \<notin> set (errors (buildWorkflowGraphV11 codeUnitLe [] []))"
  by code_simp

theorem C4_entry_node_witness:
  "graph (buildWorkflowGraphV11 codeUnitLe scenarioE_nodes scenarioE_edges) = Some scenarioE_graph
   \<and> entryCandidates scenarioE_nodes scenarioE_edges = [''b'', ''a'']
   \<and> entryNodeId scenarioE_graph = ''a''
   \<and> inDegree scenarioE_nodes scenarioE_edges (entryNodeId scenarioE_graph) = 0
   \<and> total_preorder codeUnitLe
   \<and> codeUnitLe (entryNodeId scenarioE_graph) ''b''
   \<and> MultipleStartNodes (entryNodeId scenarioE_graph)
        \<in> set (warnings (buildWorkflowGraphV11 codeUnitLe scenarioE_nodes scenarioE_edges))
   \<and> scenarioD_nodes \<noteq> [] \<and> entryCandidates scenarioD_nodes scenarioD_edges = []
   \<and> graph (buildWorkflowGraphV11 codeUnitLe scenarioD_nodes scenarioD_edges) = None
   \<and> NoEntryNode \<in> set (errors (buildWorkflowGraphV11 codeUnitLe scenarioD_nodes scenarioD_edges))"
proof -
  have g: "graph (buildWorkflowGraphV11 codeUnitLe scenarioE_nodes scenarioE_edges) = Some scenarioE_graph"
    by (simp add: scenarioE_result)
  have c: "entryCandidates scenarioE_nodes scenarioE_edges = [''b'', ''a'']"
    by code_simp
  have e: "entryNodeId scenarioE_graph = ''a''"
    by (simp add: scenarioE_graph_def)
  have d: "scenarioD_nodes \<noteq> [] \<and> entryCandidates scenarioD_nodes scenarioD_edges = []"
    by code_simp
  have l: "1 < length (entryCandidates scenarioE_nodes scenarioE_edges)"
    and m: "''b'' \<in> set (entryCandidates scenarioE_nodes scenarioE_edges)"
    by (simp_all add: c)
  note s = C4_entry_node [of codeUnitLe scenarioE_nodes scenarioE_edges, THEN conjunct1, rule_format, OF g]
  note n = C4_entry_node [of codeUnitLe scenarioD_nodes scenarioD_edges, THEN conjunct2, rule_format, OF d]
  from s have s1: "inDegree scenarioE_nodes scenarioE_edges (entryNodeId scenarioE_graph) = 0" by simp
  from s total_preorder_codeUnitLe m have s2: "codeUnitLe (entryNodeId scenarioE_graph) ''b''" by blast
  from s l have s3: "MultipleStartNodes (entryNodeId scenarioE_graph)
        \<in> set (warnings (buildWorkflowGraphV11 codeUnitLe scenarioE_nodes scenarioE_edges))" by blast
  from g c e s1 s2 s3 total_preorder_codeUnitLe d n show ?thesis by simp
qed

subsection \<open>Referential closure\<close>

lemma mapNode_lookup: "map_of m i = map_of m' i \<Longrightarrow> mapNode m i = mapNode m' i"
  by (simp add: mapNode_def)

text \<open>
  C10 (as amended). In a compiled graph both ends of every edge are ids of nodes of the
  graph; the nodes have distinct ids, which are exactly the non-empty ids of the input
  nodes (an input node whose id is empty is skipped); and the node emitted for an id is
  built from the last input node that has this id.
\<close>

theorem C10_referential_closure:
  assumes "graph (buildWorkflowGraphV11 lc ns es) = Some g"
  shows "(\<forall>e \<in> set (edges g). ge_from e \<in> set (map gn_id (nodes g)) \<and> ge_to e \<in> set (map gn_id (nodes g)))
       \<and> distinct (map gn_id (nodes g))
       \<and> set (map gn_id (nodes g)) = {bn_id n | n. n \<in> set ns \<and> bn_id n \<noteq> []}
       \<and> (\<forall>v \<in> set (nodes g).
            v = mapNode [(gn_id v, last (filter (\<lambda>n. bn_id n = gn_id v) ns))] (gn_id v))"
proof -
  let ?N = "map fst (nodesById_of ns)"
  have ids: "map gn_id (nodes g) = stable_sort lc ?N" using assms by (rule build_node_ids)
  have set_ids: "set (map gn_id (nodes g)) = set ?N" by (simp only: ids set_stable_sort)
  have d: "distinct (map gn_id (nodes g))"
    by (simp only: ids distinct_stable_sort distinct_nodesById)
  have k: "set (map gn_id (nodes g)) = {bn_id n | n. n \<in> set ns \<and> bn_id n \<noteq> []}"
    by (simp only: set_ids keys_nodesById)
  have ends: "ge_from e \<in> set (map gn_id (nodes g)) \<and> ge_to e \<in> set (map gn_id (nodes g))"
    if "e \<in> set (edges g)" for e
  proof -
    from that have "(ge_from e, ge_to e) \<in> graphRel g" by (auto simp: graphRel_def)
    then have "(ge_from e, ge_to e) \<in> edgeRel ns es" by (simp add: graphRel_build [OF assms])
    then obtain r where "r \<in> set (validEdges_of (nodesById_of ns) es)"
      "ge_from e = be_source (snd r)" "ge_to e = be_target (snd r)"
      by (auto simp: edgeRel_def)
    with validEdges_mem(1,2) [of r "nodesById_of ns" es] show ?thesis by (simp only: set_ids)
  qed
  have last: "v = mapNode [(gn_id v, last (filter (\<lambda>n. bn_id n = gn_id v) ns))] (gn_id v)"
    if "v \<in> set (nodes g)" for v
  proof -
    from that assms obtain i where i: "i \<in> set (stable_sort lc ?N)" and v: "v = mapNode (nodesById_of ns) i"
      by (auto simp: build_Some)
    from i have iN: "i \<in> set ?N" by (simp only: set_stable_sort)
    then have ne: "i \<noteq> []" by (rule nodesById_keys_nonempty)
    from iN have "filter (\<lambda>n. bn_id n = i) ns \<noteq> []"
      by (auto simp: keys_nodesById filter_empty_conv simp del: set_map)
    with ne have "map_of (nodesById_of ns) i = map_of [(i, last (filter (\<lambda>n. bn_id n = i) ns))] i"
      by (simp add: map_of_nodesById)
    from mapNode_lookup [OF this] v show ?thesis by (simp add: mapNode_id)
  qed
  from ends d k last show ?thesis by blast
qed

definition scenarioN_nodes :: "BuilderGraphNode list" where
  "scenarioN_nodes =
     [\<lparr> bn_id = ''a'', bn_type = Some (JStr ''end''), bn_data = None \<rparr>,
      plainNode [],
      \<lparr> bn_id = ''a'', bn_type = Some (JStr ''decision''), bn_data = None \<rparr>,
      plainNode ''b'']"

definition scenarioN_graph :: WorkflowGraphV11 where
  "scenarioN_graph =
     \<lparr> schemaVersion = ''1.1'', entryNodeId = ''a'',
       nodes = [(plainGraphNode ''a'') \<lparr> gn_type := Decision \<rparr>, plainGraphNode ''b''],
       edges = [plainGraphEdge None ''a'' ''b'' ''next'' None] \<rparr>"

lemma scenarioN_result:
  "buildWorkflowGraphV11 codeUnitLe scenarioN_nodes [plainEdge None ''a'' ''b'']
     = \<lparr> graph = Some scenarioN_graph, warnings = [DuplicateNodeIds 2], errors = [] \<rparr>"
  by code_simp

theorem C10_counterexample:
  "map bn_id scenarioN_nodes = [''a'', [], ''a'', ''b'']
   \<and> graph (buildWorkflowGraphV11 codeUnitLe scenarioN_nodes [plainEdge None ''a'' ''b'']) = Some scenarioN_graph
   \<and> map gn_id (nodes scenarioN_graph) = [''a'', ''b'']"
  by code_simp

theorem C10_referential_closure_witness:
  "graph (buildWorkflowGraphV11 codeUnitLe scenarioN_nodes [plainEdge None ''a'' ''b'']) = Some scenarioN_graph
   \<and> plainGraphEdge None ''a'' ''b'' ''next'' None \<in> set (edges scenarioN_graph)
   \<and> ge_from (plainGraphEdge None ''a'' ''b'' ''next'' None) \<in> set (map gn_id (nodes scenarioN_graph))
   \<and> ge_to (plainGraphEdge None ''a'' ''b'' ''next'' None) \<in> set (map gn_id (nodes scenarioN_graph))
   \<and> distinct (map gn_id (nodes scenarioN_graph))
   \<and> (plainGraphNode ''a'') \<lparr> gn_type := Decision \<rparr> \<in> set (nodes scenarioN_graph)
   \<and> (plainGraphNode ''a'') \<lparr> gn_type := Decision \<rparr>
       = mapNode [(''a'', last (filter (\<lambda>n. bn_id n = ''a'') scenarioN_nodes))] ''a''"
proof -
  have g: "graph (buildWorkflowGraphV11 codeUnitLe scenarioN_nodes [plainEdge None ''a'' ''b'']) = Some scenarioN_graph"
    by (simp add: scenarioN_result)
  have e: "plainGraphEdge None ''a'' ''b'' ''next'' None \<in> set (edges scenarioN_graph)"
    by (simp add: scenarioN_graph_def)
  have v: "(plainGraphNode ''a'') \<lparr> gn_type := Decision \<rparr> \<in> set (nodes scenarioN_graph)"
    by (simp add: scenarioN_graph_def)
  have i: "gn_id ((plainGraphNode ''a'') \<lparr> gn_type := Decision \<rparr>) = ''a''"
    by (simp add: plainGraphNode_def)
  note t = C10_referential_closure [OF g]
  from t e have t1: "ge_from (plainGraphEdge None ''a'' ''b'' ''next'' None) \<in> set (map gn_id (nodes scenarioN_graph))
      \<and> ge_to (plainGraphEdge None ''a'' ''b'' ''next'' None) \<in> set (map gn_id (nodes scenarioN_graph))"
    by blast
  from t have t2: "distinct (map gn_id (nodes scenarioN_graph))" by blast
  from t v have "(plainGraphNode ''a'') \<lparr> gn_type := Decision \<rparr>
       = mapNode [(gn_id ((plainGraphNode ''a'') \<lparr> gn_type := Decision \<rparr>),
                   last (filter (\<lambda>n. bn_id n = gn_id ((plainGraphNode ''a'') \<lparr> gn_type := Decision \<rparr>)) scenarioN_nodes))]
           (gn_id ((plainGraphNode ''a'') \<lparr> gn_type := Decision \<rparr>))"
    by blast
  then have t3: "(plainGraphNode ''a'') \<lparr> gn_type := Decision \<rparr>
       = mapNode [(''a'', last (filter (\<lambda>n. bn_id n = ''a'') scenarioN_nodes))] ''a''"
    by (simp only: i)
  from g e t1 t2 v t3 show ?thesis by simp
qed


section \<open>Package manifest builder (bmad-manifest-v11.ts)\<close>

text \<open>
  Workflow ids are numbers in the source; the model takes them as integers. A \<open>null\<close>
  element of the \<open>workflows\<close> array is \<open>None\<close>.
\<close>

record WorkflowListItemForManifest =
  wl_id :: int
  wl_name :: string
  wl_isDefault :: "bool option"

record BmadManifestEntry =
  me_workflow :: string
  me_graph :: string
  me_agents :: string
  me_assetsDir :: "string option"

record BmadManifestWorkflow =
  mw_id :: string
  mw_displayName :: "string option"
  mw_workflow :: string
  mw_graph :: string
  mw_tags :: "string list option"

record BmadManifestV11 =
  bm_schemaVersion :: string
  bm_name :: string
  bm_version :: string
  bm_createdAt :: string
  bm_entry :: BmadManifestEntry
  bm_workflows :: "BmadManifestWorkflow list"

datatype manifest_warning =
    ProjectNameEmpty
  | MultipleDefaultWorkflows "int list"
  | NoDefaultWorkflow int

datatype manifest_error =
    NoWorkflows
  | NoValidWorkflows
  | DuplicateWorkflowId int
  | InvalidWorkflowIds "string list"
  | CreatedAtEmpty
  | VersionEmpty

record BmadManifestBuildResult =
  manifest :: "BmadManifestV11 option"
  mwarnings :: "manifest_warning list"
  merrors :: "manifest_error list"

record BmadManifestParams =
  bp_projectName :: string
  bp_workflows :: "WorkflowListItemForManifest option list"
  bp_createdAt :: string
  bp_version :: "string option"

definition buildWorkflowPaths :: "string \<Rightarrow> string \<times> string" where
  "buildWorkflowPaths i = (''workflows/'' @ i @ ''/workflow.md'', ''workflows/'' @ i @ ''/workflow.graph.json'')"

text \<open>The loop that fills \<open>byId\<close>, on the pair (byId, errors).\<close>

definition registerWorkflow ::
  "WorkflowListItemForManifest option \<Rightarrow> (int \<times> WorkflowListItemForManifest) list \<times> manifest_error list
     \<Rightarrow> (int \<times> WorkflowListItemForManifest) list \<times> manifest_error list" where
  "registerWorkflow w s =
     (case s of (byId, errs) \<Rightarrow>
        (case w of
           None \<Rightarrow> (byId, errs)
         | Some workflow \<Rightarrow>
             if map_of byId (wl_id workflow) \<noteq> None
             then (byId, errs @ [DuplicateWorkflowId (wl_id workflow)])
             else (AList.update (wl_id workflow) workflow byId, errs)))"

definition byIdLe :: "WorkflowListItemForManifest \<Rightarrow> WorkflowListItemForManifest \<Rightarrow> bool" where
  "byIdLe a b \<longleftrightarrow> wl_id a - wl_id b \<le> 0"

definition flagged :: "WorkflowListItemForManifest \<Rightarrow> bool" where
  "flagged w \<longleftrightarrow> wl_isDefault w = Some True"

definition workflowIndexEntry :: "WorkflowListItemForManifest \<Rightarrow> BmadManifestWorkflow" where
  "workflowIndexEntry w =
     (let i = trim (string_of_int (wl_id w))
      in \<lparr> mw_id = i, mw_displayName = Some (wl_name w),
           mw_workflow = fst (buildWorkflowPaths i), mw_graph = snd (buildWorkflowPaths i),
           mw_tags = Some [] \<rparr>)"

definition buildBmadManifestV11 :: "BmadManifestParams \<Rightarrow> BmadManifestBuildResult" where
  "buildBmadManifestV11 params =
     (let rawName = trim (bp_projectName params);
          name = (if rawName \<noteq> [] then rawName else ''Untitled'');
          warns = (if rawName = [] then [ProjectNameEmpty] else []);
          workflows = bp_workflows params
      in if workflows = [] then \<lparr> manifest = None, mwarnings = warns, merrors = [NoWorkflows] \<rparr>
         else
           let (byId, errs1) = fold registerWorkflow workflows ([], []);
               ordered = stable_sort byIdLe (map snd byId)
           in if ordered = [] then \<lparr> manifest = None, mwarnings = warns, merrors = [NoValidWorkflows] \<rparr>
              else
                let normalizedIds = map (\<lambda>w. trim (string_of_int (wl_id w))) ordered;
                    invalidIds = filter (\<lambda>i. i = [] \<or> \<not> matches_id_pattern i) normalizedIds;
                    errs2 = errs1 @ (if invalidIds \<noteq> [] then [InvalidWorkflowIds invalidIds] else []);
                    createdAt = trim (bp_createdAt params);
                    errs3 = errs2 @ (if createdAt = [] then [CreatedAtEmpty] else []);
                    version = trim (case bp_version params of Some v \<Rightarrow> v | None \<Rightarrow> ''0.1.0'');
                    errs = errs3 @ (if version = [] then [VersionEmpty] else [])
                in if errs \<noteq> [] then \<lparr> manifest = None, mwarnings = warns, merrors = errs \<rparr>
                   else
                     let defaults = stable_sort byIdLe (filter flagged ordered);
                         warns2 = warns @ (if length defaults > 1
                                           then [MultipleDefaultWorkflows (map wl_id defaults)] else []);
                         entryWorkflow = (case defaults of d # _ \<Rightarrow> d | [] \<Rightarrow> hd ordered);
                         warns3 = warns2 @ (if defaults = [] then [NoDefaultWorkflow (wl_id entryWorkflow)] else []);
                         entryPaths = buildWorkflowPaths (trim (string_of_int (wl_id entryWorkflow)))
                     in \<lparr> manifest = Some
                            \<lparr> bm_schemaVersion = ''1.1'', bm_name = name, bm_version = version,
                              bm_createdAt = createdAt,
                              bm_entry = \<lparr> me_workflow = fst entryPaths, me_graph = snd entryPaths,
                                           me_agents = ''agents.json'', me_assetsDir = Some ''assets/'' \<rparr>,
                              bm_workflows = map workflowIndexEntry ordered \<rparr>,
                          mwarnings = warns3, merrors = errs \<rparr>)"

definition wfItem :: "int \<Rightarrow> string \<Rightarrow> bool option \<Rightarrow> WorkflowListItemForManifest option" where
  "wfItem i n d = Some \<lparr> wl_id = i, wl_name = n, wl_isDefault = d \<rparr>"

text \<open>The workflows that are not \<open>null\<close>, and the entry that selects a workflow.\<close>

definition validItems :: "WorkflowListItemForManifest option list \<Rightarrow> WorkflowListItemForManifest list" where
  "validItems ws = List.map_filter (\<lambda>w. w) ws"

definition entryFor :: "WorkflowListItemForManifest \<Rightarrow> BmadManifestEntry" where
  "entryFor w =
     \<lparr> me_workflow = fst (buildWorkflowPaths (trim (string_of_int (wl_id w)))),
       me_graph = snd (buildWorkflowPaths (trim (string_of_int (wl_id w)))),
       me_agents = ''agents.json'', me_assetsDir = Some ''assets/'' \<rparr>"

lemma update_new_key: "map_of m k = None \<Longrightarrow> AList.update k v m = m @ [(k, v)]"
  by (induction m) (auto split: if_splits)

lemma validItems_simps:
  "validItems [] = []" "validItems (None # ws) = validItems ws" "validItems (Some w # ws) = w # validItems ws"
  by (simp_all add: validItems_def List.map_filter_simps)

lemma registerWorkflow_simps:
  "registerWorkflow None (m, e) = (m, e)"
  "registerWorkflow (Some w) (m, e) =
     (if map_of m (wl_id w) \<noteq> None then (m, e @ [DuplicateWorkflowId (wl_id w)])
      else (AList.update (wl_id w) w m, e))"
  by (simp_all add: registerWorkflow_def)

lemma register_fold:
  "fold registerWorkflow ws (m, e) = (m', []) \<Longrightarrow>
     e = [] \<and> m' = m @ map (\<lambda>w. (wl_id w, w)) (validItems ws)"
proof (induction ws arbitrary: m e)
  case Nil
  then show ?case by (simp add: validItems_simps)
next
  case (Cons w ws)
  show ?case
  proof (cases w)
    case None
    with Cons show ?thesis by (simp add: registerWorkflow_simps validItems_simps)
  next
    case (Some wf')
    show ?thesis
    proof (cases "map_of m (wl_id wf') = None")
      case True
      with Some Cons.prems
      have "fold registerWorkflow ws (m @ [(wl_id wf', wf')], e) = (m', [])"
        by (simp add: registerWorkflow_simps update_new_key)
      from Cons.IH [OF this] Some show ?thesis by (simp add: validItems_simps)
    next
      case False
      with Some Cons.prems
      have "fold registerWorkflow ws (m, e @ [DuplicateWorkflowId (wl_id wf')]) = (m', [])"
        by (simp add: registerWorkflow_simps)
      from Cons.IH [OF this] show ?thesis by simp
    qed
  qed
qed

lemma total_preorder_byIdLe: "total_preorder byIdLe"
  by (auto simp: total_preorder_def byIdLe_def)

lemma manifest_Some:
  assumes "manifest (buildBmadManifestV11 params) = Some m"
  shows "bm_entry m = entryFor (case stable_sort byIdLe (filter flagged (stable_sort byIdLe (validItems (bp_workflows params)))) of
                          d # _ \<Rightarrow> d | [] \<Rightarrow> hd (stable_sort byIdLe (validItems (bp_workflows params))))"
    and "mwarnings (buildBmadManifestV11 params)
           = (if trim (bp_projectName params) = [] then [ProjectNameEmpty] else [])
             @ (if 1 < length (stable_sort byIdLe (filter flagged (stable_sort byIdLe (validItems (bp_workflows params)))))
                then [MultipleDefaultWorkflows (map wl_id (stable_sort byIdLe (filter flagged
                        (stable_sort byIdLe (validItems (bp_workflows params))))))] else [])
             @ (if stable_sort byIdLe (filter flagged (stable_sort byIdLe (validItems (bp_workflows params)))) = []
                then [NoDefaultWorkflow (wl_id (hd (stable_sort byIdLe (validItems (bp_workflows params)))))] else [])"
    and "validItems (bp_workflows params) \<noteq> []"
proof -
  obtain byId errs1 where f: "fold registerWorkflow (bp_workflows params) ([], []) = (byId, errs1)"
    by (cases "fold registerWorkflow (bp_workflows params) ([], [])")
  from assms f have e: "errs1 = []"
    by (auto simp: buildBmadManifestV11_def Let_def split: if_splits)
  from register_fold [OF f [unfolded e]]
  have b: "map snd byId = validItems (bp_workflows params)" by (simp add: comp_def)
  from assms f e b show "bm_entry m = entryFor (case stable_sort byIdLe (filter flagged (stable_sort byIdLe (validItems (bp_workflows params)))) of
                          d # _ \<Rightarrow> d | [] \<Rightarrow> hd (stable_sort byIdLe (validItems (bp_workflows params))))"
    by (auto simp: buildBmadManifestV11_def Let_def entryFor_def split: if_splits list.splits)
  from assms f e b show "mwarnings (buildBmadManifestV11 params)
           = (if trim (bp_projectName params) = [] then [ProjectNameEmpty] else [])
             @ (if 1 < length (stable_sort byIdLe (filter flagged (stable_sort byIdLe (validItems (bp_workflows params)))))
                then [MultipleDefaultWorkflows (map wl_id (stable_sort byIdLe (filter flagged
                        (stable_sort byIdLe (validItems (bp_workflows params))))))] else [])
             @ (if stable_sort byIdLe (filter flagged (stable_sort byIdLe (validItems (bp_workflows params)))) = []
                then [NoDefaultWorkflow (wl_id (hd (stable_sort byIdLe (validItems (bp_workflows params)))))] else [])"
    by (auto simp: buildBmadManifestV11_def Let_def split: if_splits list.splits)
  from assms f e b show "validItems (bp_workflows params) \<noteq> []"
    by (auto simp: buildBmadManifestV11_def Let_def stable_sort_Nil split: if_splits)
qed

text \<open>
  C7. In a manifest that is built, the entry is: the workflow flagged \<open>isDefault\<close> when
  exactly one is flagged, and the selection adds no warning (the only possible warning
  is the one about an empty project name); a flagged workflow of least id when several
  are flagged, with a warning; a workflow of least id among all when none is flagged,
  with a warning.
\<close>

theorem C7_entry_selection:
  assumes "manifest (buildBmadManifestV11 params) = Some m"
  shows "(\<forall>w. filter flagged (validItems (bp_workflows params)) = [w] \<longrightarrow>
            bm_entry m = entryFor w
            \<and> mwarnings (buildBmadManifestV11 params)
                = (if trim (bp_projectName params) = [] then [ProjectNameEmpty] else []))
       \<and> (1 < length (filter flagged (validItems (bp_workflows params))) \<longrightarrow>
            (\<exists>w \<in> set (filter flagged (validItems (bp_workflows params))).
               (\<forall>w' \<in> set (filter flagged (validItems (bp_workflows params))). wl_id w \<le> wl_id w')
               \<and> bm_entry m = entryFor w)
            \<and> (\<exists>ids. MultipleDefaultWorkflows ids \<in> set (mwarnings (buildBmadManifestV11 params))))
       \<and> (filter flagged (validItems (bp_workflows params)) = [] \<longrightarrow>
            (\<exists>w \<in> set (validItems (bp_workflows params)).
               (\<forall>w' \<in> set (validItems (bp_workflows params)). wl_id w \<le> wl_id w')
               \<and> bm_entry m = entryFor w
               \<and> NoDefaultWorkflow (wl_id w) \<in> set (mwarnings (buildBmadManifestV11 params))))"
proof -
  let ?items = "validItems (bp_workflows params)"
  let ?ordered = "stable_sort byIdLe ?items"
  let ?defaults = "stable_sort byIdLe (filter flagged ?ordered)"
  note en = manifest_Some(1) [OF assms] and wn = manifest_Some(2) [OF assms] and ne = manifest_Some(3) [OF assms]
  have ms: "mset ?defaults = mset (filter flagged ?items)"
    by (simp add: mset_stable_sort)
  then have set_d: "set ?defaults = set (filter flagged ?items)" by (rule mset_eq_setD)
  from ms have len_d: "length ?defaults = length (filter flagged ?items)" by (rule mset_eq_length)
  have least_d: "\<And>w'. w' \<in> set (filter flagged ?items) \<Longrightarrow> wl_id (hd ?defaults) \<le> wl_id w'"
  proof -
    fix w' assume "w' \<in> set (filter flagged ?items)"
    then have "w' \<in> set (filter flagged ?ordered)" by (simp add: set_stable_sort)
    from hd_stable_sort_least [OF total_preorder_byIdLe this] show "wl_id (hd ?defaults) \<le> wl_id w'"
      by (simp add: byIdLe_def)
  qed
  have least_o: "\<And>w'. w' \<in> set ?items \<Longrightarrow> wl_id (hd ?ordered) \<le> wl_id w'"
    using hd_stable_sort_least [OF total_preorder_byIdLe] by (simp add: byIdLe_def)
  have one: "bm_entry m = entryFor w
            \<and> mwarnings (buildBmadManifestV11 params)
                = (if trim (bp_projectName params) = [] then [ProjectNameEmpty] else [])"
    if "filter flagged ?items = [w]" for w
  proof -
    from that ms have "mset ?defaults = {#w#}" by simp
    then have "?defaults = [w]" by simp
    with en wn show ?thesis by simp
  qed
  have many: "(\<exists>w \<in> set (filter flagged ?items).
               (\<forall>w' \<in> set (filter flagged ?items). wl_id w \<le> wl_id w') \<and> bm_entry m = entryFor w)
            \<and> (\<exists>ids. MultipleDefaultWorkflows ids \<in> set (mwarnings (buildBmadManifestV11 params)))"
    if "1 < length (filter flagged ?items)"
  proof -
    from that len_d have l: "1 < length ?defaults" by simp
    then obtain d ds where d: "?defaults = d # ds" by (cases ?defaults) auto
    then have "d \<in> set ?defaults" by simp
    with set_d have mem: "d \<in> set (filter flagged ?items)" by simp
    from d least_d have "\<forall>w' \<in> set (filter flagged ?items). wl_id d \<le> wl_id w'" by simp
    moreover from d en have "bm_entry m = entryFor d" by simp
    moreover from l wn have "MultipleDefaultWorkflows (map wl_id ?defaults) \<in> set (mwarnings (buildBmadManifestV11 params))"
      by simp
    ultimately show ?thesis using mem by blast
  qed
  have none: "\<exists>w \<in> set ?items. (\<forall>w' \<in> set ?items. wl_id w \<le> wl_id w') \<and> bm_entry m = entryFor w
               \<and> NoDefaultWorkflow (wl_id w) \<in> set (mwarnings (buildBmadManifestV11 params))"
    if "filter flagged ?items = []"
  proof -
    from that len_d have d: "?defaults = []" by simp
    from ne have "?ordered \<noteq> []" by (simp add: stable_sort_eq_Nil)
    then have "hd ?ordered \<in> set ?ordered" by (rule hd_in_set)
    then have mem: "hd ?ordered \<in> set ?items" by (simp add: set_stable_sort)
    from d en have "bm_entry m = entryFor (hd ?ordered)" by simp
    moreover from d wn have "NoDefaultWorkflow (wl_id (hd ?ordered)) \<in> set (mwarnings (buildBmadManifestV11 params))"
      by simp
    ultimately show ?thesis using mem least_o by blast
  qed
  from one many none show ?thesis by blast
qed

definition manifestParams :: "WorkflowListItemForManifest option list \<Rightarrow> BmadManifestParams" where
  "manifestParams ws = \<lparr> bp_projectName = ''Demo'', bp_workflows = ws, bp_createdAt = ''2025-01-01'', bp_version = None \<rparr>"

definition oneDefault :: "WorkflowListItemForManifest option list" where
  "oneDefault = [wfItem 2 ''b'' None, wfItem 1 ''a'' (Some True)]"

definition twoDefaults :: "WorkflowListItemForManifest option list" where
  "twoDefaults = [wfItem 3 ''c'' (Some True), wfItem 1 ''a'' None, None, wfItem 2 ''b'' (Some True)]"

definition noDefault :: "WorkflowListItemForManifest option list" where
  "noDefault = [wfItem 3 ''c'' (Some False), wfItem 1 ''a'' None, wfItem 2 ''b'' None]"

theorem C7_entry_selection_witness:
  "manifest (buildBmadManifestV11 (manifestParams oneDefault)) \<noteq> None
   \<and> filter flagged (validItems oneDefault) = [\<lparr> wl_id = 1, wl_name = ''a'', wl_isDefault = Some True \<rparr>]
   \<and> bm_entry (the (manifest (buildBmadManifestV11 (manifestParams oneDefault))))
       = entryFor \<lparr> wl_id = 1, wl_name = ''a'', wl_isDefault = Some True \<rparr>
   \<and> mwarnings (buildBmadManifestV11 (manifestParams oneDefault)) = []
   \<and> manifest (buildBmadManifestV11 (manifestParams twoDefaults)) \<noteq> None
   \<and> 1 < length (filter flagged (validItems twoDefaults))
   \<and> (\<exists>w \<in> set (filter flagged (validItems twoDefaults)).
         (\<forall>w' \<in> set (filter flagged (validItems twoDefaults)). wl_id w \<le> wl_id w')
         \<and> bm_entry (the (manifest (buildBmadManifestV11 (manifestParams twoDefaults)))) = entryFor w)
   \<and> (\<exists>ids. MultipleDefaultWorkflows ids \<in> set (mwarnings (buildBmadManifestV11 (manifestParams twoDefaults))))
   \<and> manifest (buildBmadManifestV11 (manifestParams noDefault)) \<noteq> None
   \<and> filter flagged (validItems noDefault) = []
   \<and> (\<exists>w \<in> set (validItems noDefault).
         (\<forall>w' \<in> set (validItems noDefault). wl_id w \<le> wl_id w')
         \<and> bm_entry (the (manifest (buildBmadManifestV11 (manifestParams noDefault)))) = entryFor w
         \<and> NoDefaultWorkflow (wl_id w) \<in> set (mwarnings (buildBmadManifestV11 (manifestParams noDefault))))"
proof -
  have n1: "manifest (buildBmadManifestV11 (manifestParams oneDefault)) \<noteq> None"
    and n2: "manifest (buildBmadManifestV11 (manifestParams twoDefaults)) \<noteq> None"
    and n3: "manifest (buildBmadManifestV11 (manifestParams noDefault)) \<noteq> None"
    by code_simp+
  from n1 obtain m1 where m1: "manifest (buildBmadManifestV11 (manifestParams oneDefault)) = Some m1" by auto
  from n2 obtain m2 where m2: "manifest (buildBmadManifestV11 (manifestParams twoDefaults)) = Some m2" by auto
  from n3 obtain m3 where m3: "manifest (buildBmadManifestV11 (manifestParams noDefault)) = Some m3" by auto
  have w [simp]: "bp_workflows (manifestParams ws) = ws" "trim (bp_projectName (manifestParams ws)) \<noteq> []" for ws
    by (simp_all add: manifestParams_def) code_simp
  have f1: "filter flagged (validItems oneDefault) = [\<lparr> wl_id = 1, wl_name = ''a'', wl_isDefault = Some True \<rparr>]"
    by code_simp
  have f2: "1 < length (filter flagged (validItems twoDefaults))"
    by code_simp
  have f3: "filter flagged (validItems noDefault) = []"
    by code_simp
  from C7_entry_selection [OF m1] f1
  have a: "bm_entry m1 = entryFor \<lparr> wl_id = 1, wl_name = ''a'', wl_isDefault = Some True \<rparr>
           \<and> mwarnings (buildBmadManifestV11 (manifestParams oneDefault)) = []"
    by simp
  from C7_entry_selection [OF m2] f2
  have b: "(\<exists>w \<in> set (filter flagged (validItems twoDefaults)).
         (\<forall>w' \<in> set (filter flagged (validItems twoDefaults)). wl_id w \<le> wl_id w') \<and> bm_entry m2 = entryFor w)
     \<and> (\<exists>ids. MultipleDefaultWorkflows ids \<in> set (mwarnings (buildBmadManifestV11 (manifestParams twoDefaults))))"
    by simp
  from C7_entry_selection [OF m3] f3
  have c: "\<exists>w \<in> set (validItems noDefault).
         (\<forall>w' \<in> set (validItems noDefault). wl_id w \<le> wl_id w') \<and> bm_entry m3 = entryFor w
         \<and> NoDefaultWorkflow (wl_id w) \<in> set (mwarnings (buildBmadManifestV11 (manifestParams noDefault)))"
    by simp
  from n1 n2 n3 f1 f2 f3 a b c show ?thesis by (simp add: m1 m2 m3)
qed


section \<open>Frontmatter codec (frontmatter.ts)\<close>

text \<open>
  \<open>YAML.parse\<close> belongs to a library outside the repository; it is a parameter of the
  model, which returns the parsed value or what it throws.
\<close>

datatype thrown = ThrownError string | ThrownOther

datatype frontmatter_error = FrontmatterNotObject | FrontmatterParseFailed thrown

record FrontmatterParseResult =
  fp_data :: "(string \<times> json) list option"
  fp_error :: "frontmatter_error option"

definition parseYamlToObject :: "(string \<Rightarrow> thrown + json) \<Rightarrow> string \<Rightarrow> FrontmatterParseResult" where
  "parseYamlToObject yamlParse yamlText =
     (let trimmed = trim yamlText
      in if trimmed = [] then \<lparr> fp_data = Some [], fp_error = None \<rparr>
         else (case yamlParse trimmed of
                 Inl err \<Rightarrow> \<lparr> fp_data = None, fp_error = Some (FrontmatterParseFailed err) \<rparr>
               | Inr parsed \<Rightarrow>
                   if \<not> truthy parsed then \<lparr> fp_data = Some [], fp_error = None \<rparr>
                   else (case parsed of
                           JObj kvs \<Rightarrow> \<lparr> fp_data = Some kvs, fp_error = None \<rparr>
                         | _ \<Rightarrow> \<lparr> fp_data = None, fp_error = Some FrontmatterNotObject \<rparr>)))"

text \<open>What the library returns on a few documents; any other document is taken as a syntax error.\<close>

definition yamlSample :: "string \<Rightarrow> thrown + json" where
  "yamlSample s =
     (if s = ''false'' then Inr (JBool False)
      else if s = ''0'' then Inr (JNum 0)
      else if s = ''- a'' then Inr (JArr [JStr ''a''])
      else if s = ''a: 1'' then Inr (JObj [(''a'', JNum 1)])
      else Inl (ThrownError ''syntax''))"

fun isMapping :: "json \<Rightarrow> bool" where
  "isMapping (JObj kvs) = True"
| "isMapping _ = False"

text \<open>
  C8 (as amended). Empty or blank input gives \<open>{data: {}, error: null}\<close>. A document
  whose root is falsy (\<open>null\<close>, \<open>false\<close>, \<open>0\<close>, the empty string) gives \<open>{data: {}, error:
  null}\<close> as well. A document whose root is truthy and not a mapping gives \<open>{data: null}\<close>
  with the not-an-object error; a mapping is returned as the data.
\<close>

theorem C8_parseYamlToObject:
  "(trim t = [] \<longrightarrow> parseYamlToObject yamlParse t = \<lparr> fp_data = Some [], fp_error = None \<rparr>)
   \<and> (trim t \<noteq> [] \<and> yamlParse (trim t) = Inr v \<and> \<not> truthy v \<longrightarrow>
        parseYamlToObject yamlParse t = \<lparr> fp_data = Some [], fp_error = None \<rparr>)
   \<and> (trim t \<noteq> [] \<and> yamlParse (trim t) = Inr v \<and> truthy v \<and> \<not> isMapping v \<longrightarrow>
        parseYamlToObject yamlParse t = \<lparr> fp_data = None, fp_error = Some FrontmatterNotObject \<rparr>)
   \<and> (trim t \<noteq> [] \<and> yamlParse (trim t) = Inr (JObj kvs) \<longrightarrow>
        parseYamlToObject yamlParse t = \<lparr> fp_data = Some kvs, fp_error = None \<rparr>)"
  by (cases v) (simp_all add: parseYamlToObject_def)

theorem C8_counterexample:
  "yamlSample (trim ''false'') = Inr (JBool False)
   \<and> \<not> isMapping (JBool False)
   \<and> parseYamlToObject yamlSample ''false'' = \<lparr> fp_data = Some [], fp_error = None \<rparr>"
  by code_simp

theorem C8_parseYamlToObject_witness:
  "trim ''  '' = []
   \<and> parseYamlToObject yamlSample ''  '' = \<lparr> fp_data = Some [], fp_error = None \<rparr>
   \<and> trim ''0 '' \<noteq> [] \<and> yamlSample (trim ''0 '') = Inr (JNum 0) \<and> \<not> truthy (JNum 0)
   \<and> parseYamlToObject yamlSample ''0 '' = \<lparr> fp_data = Some [], fp_error = None \<rparr>
   \<and> trim ''- a'' \<noteq> [] \<and> yamlSample (trim ''- a'') = Inr (JArr [JStr ''a''])
   \<and> truthy (JArr [JStr ''a'']) \<and> \<not> isMapping (JArr [JStr ''a''])
   \<and> parseYamlToObject yamlSample ''- a'' = \<lparr> fp_data = None, fp_error = Some FrontmatterNotObject \<rparr>
   \<and> trim ''a: 1'' \<noteq> [] \<and> yamlSample (trim ''a: 1'') = Inr (JObj [(''a'', JNum 1)])
   \<and> parseYamlToObject yamlSample ''a: 1'' = \<lparr> fp_data = Some [(''a'', JNum 1)], fp_error = None \<rparr>"
proof -
  have a: "trim ''  '' = []" by code_simp
  have b: "trim ''0 '' \<noteq> [] \<and> yamlSample (trim ''0 '') = Inr (JNum 0) \<and> \<not> truthy (JNum 0)" by code_simp
  have c: "trim ''- a'' \<noteq> [] \<and> yamlSample (trim ''- a'') = Inr (JArr [JStr ''a''])
             \<and> truthy (JArr [JStr ''a'']) \<and> \<not> isMapping (JArr [JStr ''a''])" by code_simp
  have d: "trim ''a: 1'' \<noteq> [] \<and> yamlSample (trim ''a: 1'') = Inr (JObj [(''a'', JNum 1)])" by code_simp
  from C8_parseYamlToObject [of "''  ''" yamlSample] a
  have a': "parseYamlToObject yamlSample ''  '' = \<lparr> fp_data = Some [], fp_error = None \<rparr>" by blast
  from C8_parseYamlToObject [of "''0 ''" yamlSample "JNum 0"] b
  have b': "parseYamlToObject yamlSample ''0 '' = \<lparr> fp_data = Some [], fp_error = None \<rparr>" by blast
  from C8_parseYamlToObject [of "''- a''" yamlSample "JArr [JStr ''a'']"] c
  have c': "parseYamlToObject yamlSample ''- a'' = \<lparr> fp_data = None, fp_error = Some FrontmatterNotObject \<rparr>" by blast
  from C8_parseYamlToObject [of "''a: 1''" yamlSample _ "[(''a'', JNum 1)]"] d
  have d': "parseYamlToObject yamlSample ''a: 1'' = \<lparr> fp_data = Some [(''a'', JNum 1)], fp_error = None \<rparr>" by blast
  from a b c d a' b' c' d' show ?thesis by simp
qed


section \<open>Agent ids (utils.ts)\<close>

definition isValidAgentId :: "string \<Rightarrow> bool" where
  "isValidAgentId input = matches_id_pattern input"

text \<open>\<open>toLowerCase\<close> on code units below 256.\<close>

definition toLower :: "char \<Rightarrow> char" where
  "toLower c =
     (let n = (of_char c :: nat)
      in if (65 \<le> n \<and> n \<le> 90) \<or> (192 \<le> n \<and> n \<le> 214) \<or> (216 \<le> n \<and> n \<le> 222)
         then char_of (n + 32) else c)"

text \<open>\<open>s.replace(/[...]+/g, r)\<close>: every maximal run of characters of the class becomes \<open>r\<close>.\<close>

function replaceRuns :: "(char \<Rightarrow> bool) \<Rightarrow> string \<Rightarrow> string \<Rightarrow> string" where
  "replaceRuns P r [] = []"
| "replaceRuns P r (c # cs) =
     (if P c then r @ replaceRuns P r (dropWhile P cs) else c # replaceRuns P r cs)"
  by pat_completeness auto
termination
  by (relation "measure (\<lambda>(P, r, s). length s)") (auto simp: less_Suc_eq_le length_dropWhile_le)

definition isSlugChar :: "char \<Rightarrow> bool" where
  "isSlugChar c \<longleftrightarrow>
     (let n = (of_char c :: nat)
      in (97 \<le> n \<and> n \<le> 122) \<or> (48 \<le> n \<and> n \<le> 57)
         \<or> c = CHR ''.'' \<or> c = CHR ''_'' \<or> c = CHR '':'' \<or> c = CHR ''-'')"

definition isDash :: "char \<Rightarrow> bool" where
  "isDash c \<longleftrightarrow> c = CHR ''-''"

definition slugifyAgentId :: "string \<Rightarrow> string" where
  "slugifyAgentId input =
     (let trimmed = map toLower (trim input);
          cleaned = rev (dropWhile isDash (rev (dropWhile isDash
                      (replaceRuns isDash ''-'' (replaceRuns (\<lambda>c. \<not> isSlugChar c) ''-'' trimmed)))))
      in if cleaned = [] then ''agent''
         else if (let n = (of_char (hd cleaned) :: nat) in (97 \<le> n \<and> n \<le> 122) \<or> (48 \<le> n \<and> n \<le> 57))
              then cleaned else ''agent-'' @ cleaned)"

text \<open>
  The loop \<open>for (let i = 2; i < 1000; i += 1)\<close> of \<open>uniqueAgentId\<close>, started at \<open>i\<close>; \<open>now\<close> is
  the value of \<open>Date.now()\<close> read when the loop finds no free suffix. A \<open>Set\<close> of strings is
  the list of its elements.
\<close>

function firstFreeSuffix :: "nat \<Rightarrow> string \<Rightarrow> string list \<Rightarrow> nat \<Rightarrow> string" where
  "firstFreeSuffix now base existingIds i =
     (if i < 1000
      then (if base @ ''-'' @ string_of_nat i \<notin> set existingIds then base @ ''-'' @ string_of_nat i
            else firstFreeSuffix now base existingIds (i + 1))
      else base @ ''-'' @ string_of_nat now)"
  by pat_completeness auto
termination
  by (relation "measure (\<lambda>(now, base, existingIds, i). 1000 - i)") auto

declare firstFreeSuffix.simps [simp del]

definition uniqueAgentId :: "nat \<Rightarrow> string \<Rightarrow> string list \<Rightarrow> string" where
  "uniqueAgentId now baseName existingIds =
     (let base = slugifyAgentId baseName
      in if base \<notin> set existingIds then base else firstFreeSuffix now base existingIds 2)"

section \<open>Agent manifest builder (agents-manifest-v11.ts)\<close>

record ToolFs =
  tf_enabled :: bool
  tf_maxReadBytes :: "int option"
  tf_maxWriteBytes :: "int option"

record ToolMcp =
  tm_enabled :: bool
  tm_allowedServers :: "string list"

record ToolPolicyV11 =
  tp_fs :: ToolFs
  tp_mcp :: ToolMcp

record AgentMetadataV11 =
  am_name :: string
  am_title :: string
  am_icon :: string
  am_module :: "string option"
  am_description :: "string option"
  am_sourceId :: "string option"

record AgentPersonaV11 =
  ap_role :: string
  ap_identity :: string
  ap_communication_style :: string
  ap_principles :: "string list"

record PromptV11 =
  pr_id :: string
  pr_content :: string
  pr_description :: "string option"

record AgentV11 =
  ag_id :: string
  ag_metadata :: AgentMetadataV11
  ag_persona :: AgentPersonaV11
  ag_tools :: "ToolPolicyV11 option"
  ag_critical_actions :: "string list option"
  ag_prompts :: "PromptV11 list option"
  ag_menu :: "json list option"
  ag_systemPrompt :: "string option"
  ag_userPromptTemplate :: "string option"
  ag_discussion :: "bool option"
  ag_webskip :: "bool option"
  ag_conversational_knowledge :: "json list option"

record AgentsManifestV11 =
  as_schemaVersion :: string
  as_agents :: "AgentV11 list"

datatype agents_warning =
    SchemaVersionInvalid string
  | SchemaVersionNormalized string
  | MenuItemsFiltered string
  | KnowledgeItemsFiltered string

datatype agents_error =
    NoAgents
  | AgentsJsonInvalid
  | AgentNotObject nat
  | AgentIdEmpty nat
  | AgentIdInvalid nat string
  | AgentIdDuplicate string
  | AgentNameEmpty nat
  | AgentTitleEmpty nat
  | AgentsShapeInvalid
  | SchemaViolation string

record AgentsManifestBuildResult =
  amanifest :: "AgentsManifestV11 option"
  awarnings :: "agents_warning list"
  aerrors :: "agents_error list"

text \<open>
  The schema validator is compiled by the Ajv library from a schema file; both lie
  outside the repository. The model takes the validator as a parameter that returns the
  verdict together with \<open>validate.errors\<close>.
\<close>

record AjvError =
  aj_instancePath :: string
  aj_schemaPath :: string
  aj_message :: "string option"

record AjvOutcome =
  av_valid :: bool
  av_errors :: "AjvError list option"

definition formatAjvErrorList :: "AjvError list option \<Rightarrow> string list" where
  "formatAjvErrorList errs =
     (case errs of
        None \<Rightarrow> []
      | Some es \<Rightarrow>
          map (\<lambda>err.
                 (if aj_instancePath err \<noteq> [] then aj_instancePath err
                  else if aj_schemaPath err \<noteq> [] then aj_schemaPath err else ''value'')
                 @ '': '' @ (case aj_message err of Some m \<Rightarrow> m | None \<Rightarrow> ''invalid'')) es)"

definition validateAgentsManifestV11 :: "(AgentsManifestV11 \<Rightarrow> AjvOutcome) \<Rightarrow> AgentsManifestV11 \<Rightarrow> bool \<times> string list" where
  "validateAgentsManifestV11 ajv v =
     (let ok = av_valid (ajv v) in (ok, if ok then [] else formatAjvErrorList (av_errors (ajv v))))"

definition DEFAULT_TOOLS :: ToolPolicyV11 where
  "DEFAULT_TOOLS =
     \<lparr> tp_fs = \<lparr> tf_enabled = True, tf_maxReadBytes = None, tf_maxWriteBytes = None \<rparr>,
       tp_mcp = \<lparr> tm_enabled = False, tm_allowedServers = [] \<rparr> \<rparr>"

text \<open>The icon given by default is a glyph outside the code units of the model; a mark stands for it.\<close>

definition defaultIcon :: string where
  "defaultIcon = ''[puzzle-piece]''"

definition normalizeString :: "json option \<Rightarrow> string" where
  "normalizeString v = trimmed_string v"

definition normalizeStringArray :: "json option \<Rightarrow> string list" where
  "normalizeStringArray v = parseStringList v"

text \<open>The fields of a value when it is an object that is not an array, \<open>None\<close> otherwise.\<close>

fun objectFields :: "json option \<Rightarrow> (string \<times> json) list option" where
  "objectFields (Some (JObj kvs)) = Some kvs"
| "objectFields _ = None"

definition field :: "(string \<times> json) list option \<Rightarrow> string \<Rightarrow> json option" where
  "field obj k = (case obj of Some kvs \<Rightarrow> map_of kvs k | None \<Rightarrow> None)"

fun optionalString :: "string \<Rightarrow> string option" where
  "optionalString s = (if s \<noteq> [] then Some s else None)"

fun optionalList :: "'a list \<Rightarrow> 'a list option" where
  "optionalList xs = (if xs \<noteq> [] then Some xs else None)"

definition normalizeTools :: "json option \<Rightarrow> ToolPolicyV11" where
  "normalizeTools raw =
     (case objectFields raw of
        None \<Rightarrow> DEFAULT_TOOLS
      | Some toolsObj \<Rightarrow>
          let fsObj = objectFields (map_of toolsObj ''fs'');
              mcpObj = objectFields (map_of toolsObj ''mcp'');
              positive = (\<lambda>v. case v of Some (JNum n) \<Rightarrow> if n \<ge> 1 then Some n else None | _ \<Rightarrow> None)
          in \<lparr> tp_fs = \<lparr> tf_enabled = (case field fsObj ''enabled'' of Some (JBool b) \<Rightarrow> b | _ \<Rightarrow> True),
                         tf_maxReadBytes = positive (field fsObj ''maxReadBytes''),
                         tf_maxWriteBytes = positive (field fsObj ''maxWriteBytes'') \<rparr>,
               tp_mcp = \<lparr> tm_enabled = (case field mcpObj ''enabled'' of Some (JBool b) \<Rightarrow> b | _ \<Rightarrow> False),
                          tm_allowedServers =
                            (case field mcpObj ''allowedServers'' of
                               Some (JArr vs) \<Rightarrow>
                                 List.map_filter
                                   (\<lambda>v. case v of JStr s \<Rightarrow> if trim s \<noteq> [] then Some s else None | _ \<Rightarrow> None) vs
                             | _ \<Rightarrow> []) \<rparr> \<rparr>)"

text \<open>The legacy shape: an array of \<open>{name, role}\<close> records. The state is (agents, seen).\<close>

definition legacyAgent :: "string \<Rightarrow> string \<Rightarrow> string \<Rightarrow> AgentV11" where
  "legacyAgent i name role =
     \<lparr> ag_id = i,
       ag_metadata = \<lparr> am_name = name, am_title = name, am_icon = defaultIcon,
                       am_module = None, am_description = None, am_sourceId = None \<rparr>,
       ag_persona = \<lparr> ap_role = (if role \<noteq> [] then role else ''Agent''),
                      ap_identity = (if role \<noteq> [] then role else ''TBD''),
                      ap_communication_style = ''direct'', ap_principles = [''TBD''] \<rparr>,
       ag_tools = Some DEFAULT_TOOLS,
       ag_critical_actions = None, ag_prompts = None, ag_menu = None, ag_systemPrompt = None,
       ag_userPromptTemplate = None, ag_discussion = None, ag_webskip = None,
       ag_conversational_knowledge = None \<rparr>"

definition legacyStep :: "(nat \<Rightarrow> nat) \<Rightarrow> nat \<times> json \<Rightarrow> AgentV11 list \<times> string list \<Rightarrow> AgentV11 list \<times> string list" where
  "legacyStep clock p s =
     (case s of (agents, seen) \<Rightarrow>
        (case objectFields (Some (snd p)) of
           None \<Rightarrow> s
         | Some obj \<Rightarrow>
             let name = normalizeString (map_of obj ''name'')
             in if name = [] then s
                else
                  let role = normalizeString (map_of obj ''role'');
                      i = uniqueAgentId (clock (fst p)) name seen
                  in (agents @ [legacyAgent i name role], List.insert i seen)))"

text \<open>\<open>s.split(sep)\<close> for a separator of one character.\<close>

fun splitOn :: "char \<Rightarrow> string \<Rightarrow> string list" where
  "splitOn sep [] = [[]]"
| "splitOn sep (c # cs) =
     (if c = sep then [] # splitOn sep cs
      else (case splitOn sep cs of p # ps \<Rightarrow> (c # p) # ps | [] \<Rightarrow> [[c]]))"

definition isDigit :: "char \<Rightarrow> bool" where
  "isDigit c \<longleftrightarrow> (let n = (of_char c :: nat) in 48 \<le> n \<and> n \<le> 57)"

text \<open>The pattern \<open>/^1\.1(\.\d+)?$/\<close>.\<close>

definition matchesSchemaVersion :: "string \<Rightarrow> bool" where
  "matchesSchemaVersion s \<longleftrightarrow>
     s = ''1.1'' \<or> (take 4 s = ''1.1.'' \<and> drop 4 s \<noteq> [] \<and> list_all isDigit (drop 4 s))"

definition firstNonEmpty :: "string list \<Rightarrow> string" where
  "firstNonEmpty xs = (case filter (\<lambda>s. s \<noteq> []) xs of s # _ \<Rightarrow> s | [] \<Rightarrow> [])"

definition promptOf :: "json \<Rightarrow> PromptV11 list" where
  "promptOf p =
     (case objectFields (Some p) of
        None \<Rightarrow> []
      | Some obj \<Rightarrow>
          let pid = normalizeString (map_of obj ''id'');
              content = normalizeString (map_of obj ''content'')
          in if pid = [] \<or> content = [] then []
             else [\<lparr> pr_id = pid, pr_content = content,
                      pr_description = optionalString (normalizeString (map_of obj ''description'')) \<rparr>])"

definition validMenuItem :: "json \<Rightarrow> bool" where
  "validMenuItem item \<longleftrightarrow>
     (case objectFields (Some item) of
        None \<Rightarrow> False
      | Some obj \<Rightarrow> normalizeString (map_of obj ''description'') \<noteq> [])"

fun arrayItems :: "json option \<Rightarrow> json list option" where
  "arrayItems (Some (JArr vs)) = Some vs"
| "arrayItems _ = None"

text \<open>
  One agent of the v1.1 shape: the error that skips it, or the normalized agent with
  the warnings it adds. \<open>seen\<close> holds the ids accepted so far.
\<close>

definition normalizeAgent :: "nat \<Rightarrow> json \<Rightarrow> string list \<Rightarrow> agents_error + (AgentV11 \<times> agents_warning list)" where
  "normalizeAgent index item seen =
     (case objectFields (Some item) of
        None \<Rightarrow> Inl (AgentNotObject index)
      | Some agent \<Rightarrow>
          let i = normalizeString (map_of agent ''id'')
          in if i = [] then Inl (AgentIdEmpty index)
             else if \<not> isValidAgentId i then Inl (AgentIdInvalid index i)
             else if i \<in> set seen then Inl (AgentIdDuplicate i)
             else
               let metadataObj = objectFields (map_of agent ''metadata'');
                   meta = (\<lambda>k. normalizeString (field metadataObj k));
                   name = firstNonEmpty [meta ''name'', meta ''title'', i];
                   title = firstNonEmpty [meta ''title'', meta ''name'', name];
                   icon = firstNonEmpty [meta ''icon'', defaultIcon]
               in if name = [] then Inl (AgentNameEmpty index)
                  else if title = [] then Inl (AgentTitleEmpty index)
                  else
                    let personaObj = objectFields (map_of agent ''persona'');
                        role = firstNonEmpty [normalizeString (field personaObj ''role''), ''Agent''];
                        identity = firstNonEmpty [normalizeString (field personaObj ''identity''), role, ''TBD''];
                        communication_style =
                          firstNonEmpty [normalizeString (field personaObj ''communication_style''), ''direct''];
                        principles =
                          (case field personaObj ''principles'' of
                             Some (JArr vs) \<Rightarrow> normalizeStringArray (Some (JArr vs))
                           | Some (JStr s) \<Rightarrow> filter (\<lambda>p. p \<noteq> []) (map trim (splitOn (CHR 0x0A) s))
                           | _ \<Rightarrow> []);
                        critical_actions =
                          (case arrayItems (map_of agent ''critical_actions'') of
                             Some vs \<Rightarrow> normalizeStringArray (Some (JArr vs)) | None \<Rightarrow> []);
                        prompts =
                          (case arrayItems (map_of agent ''prompts'') of
                             Some ps \<Rightarrow> concat (map promptOf ps) | None \<Rightarrow> []);
                        rawMenu = arrayItems (map_of agent ''menu'');
                        menu = (case rawMenu of Some ms \<Rightarrow> filter validMenuItem ms | None \<Rightarrow> []);
                        rawKnowledge = arrayItems (map_of agent ''conversational_knowledge'');
                        knowledge =
                          (case rawKnowledge of
                             Some ks \<Rightarrow> filter (\<lambda>k. objectFields (Some k) \<noteq> None) ks | None \<Rightarrow> []);
                        warns =
                          (case rawMenu of
                             Some ms \<Rightarrow> if length menu \<noteq> length ms then [MenuItemsFiltered i] else []
                           | None \<Rightarrow> [])
                          @ (case rawKnowledge of
                               Some ks \<Rightarrow> if length knowledge \<noteq> length ks then [KnowledgeItemsFiltered i] else []
                             | None \<Rightarrow> [])
                    in Inr
                         (\<lparr> ag_id = i,
                            ag_metadata =
                              \<lparr> am_name = name, am_title = title, am_icon = icon,
                                am_module = optionalString (meta ''module''),
                                am_description = optionalString (meta ''description''),
                                am_sourceId = optionalString (meta ''sourceId'') \<rparr>,
                            ag_persona =
                              \<lparr> ap_role = role, ap_identity = identity,
                                ap_communication_style = communication_style,
                                ap_principles = (if principles \<noteq> [] then principles else [''TBD'']) \<rparr>,
                            ag_tools = Some (normalizeTools (map_of agent ''tools'')),
                            ag_critical_actions = optionalList critical_actions,
                            ag_prompts = optionalList prompts,
                            ag_menu = optionalList menu,
                            ag_systemPrompt =
                              (case map_of agent ''systemPrompt'' of Some (JStr s) \<Rightarrow> Some s | _ \<Rightarrow> None),
                            ag_userPromptTemplate =
                              (case map_of agent ''userPromptTemplate'' of Some (JStr s) \<Rightarrow> Some s | _ \<Rightarrow> None),
                            ag_discussion =
                              (case map_of agent ''discussion'' of Some (JBool b) \<Rightarrow> Some b | _ \<Rightarrow> None),
                            ag_webskip =
                              (case map_of agent ''webskip'' of Some (JBool b) \<Rightarrow> Some b | _ \<Rightarrow> None),
                            ag_conversational_knowledge = optionalList knowledge \<rparr>,
                          warns))"

text \<open>The loop over \<open>rawAgents\<close>, on the state (agents, seen, warnings, errors).\<close>

definition manifestStep ::
  "nat \<times> json \<Rightarrow> AgentV11 list \<times> string list \<times> agents_warning list \<times> agents_error list
     \<Rightarrow> AgentV11 list \<times> string list \<times> agents_warning list \<times> agents_error list" where
  "manifestStep p s =
     (case s of (agents, seen, warns, errs) \<Rightarrow>
        (case normalizeAgent (fst p) (snd p) seen of
           Inl e \<Rightarrow> (agents, seen, warns, errs @ [e])
         | Inr (a, ws) \<Rightarrow> (agents @ [a], List.insert (ag_id a) seen, warns @ ws, errs)))"

definition schemaVersionWarnings :: "(string \<times> json) list \<Rightarrow> agents_warning list" where
  "schemaVersionWarnings obj =
     (let rawSchemaVersion = normalizeString (map_of obj ''schemaVersion'')
      in if rawSchemaVersion \<noteq> [] \<and> \<not> matchesSchemaVersion rawSchemaVersion
         then [SchemaVersionInvalid rawSchemaVersion]
         else if rawSchemaVersion \<noteq> [] \<and> rawSchemaVersion \<noteq> ''1.1''
         then [SchemaVersionNormalized rawSchemaVersion] else [])"

text \<open>The agents, warnings and errors collected from the parsed value, by its shape.\<close>

definition collectAgents :: "(nat \<Rightarrow> nat) \<Rightarrow> json \<Rightarrow> AgentV11 list \<times> agents_warning list \<times> agents_error list" where
  "collectAgents clock parsed =
     (case parsed of
        JArr items \<Rightarrow> (fst (fold (legacyStep clock) (enumerate 0 items) ([], [])), [], [])
      | JObj obj \<Rightarrow>
          (case fold manifestStep
                  (enumerate 0 (case arrayItems (map_of obj ''agents'') of Some vs \<Rightarrow> vs | None \<Rightarrow> []))
                  ([], [], schemaVersionWarnings obj, []) of
             (agents, seen, warns, errs) \<Rightarrow> (agents, warns, errs))
      | _ \<Rightarrow> ([], [], [AgentsShapeInvalid]))"

text \<open>
  \<open>buildAgentsManifestV11\<close>. Parameters: \<open>clock k\<close> is the value \<open>Date.now()\<close> has while the
  \<open>k\<close>-th element of a legacy array is processed; \<open>jsonParse\<close> is \<open>JSON.parse\<close> (\<open>None\<close> when it
  throws); \<open>ajv\<close> is the compiled schema validator.
\<close>

definition buildAgentsManifestV11 ::
  "(nat \<Rightarrow> nat) \<Rightarrow> (string \<Rightarrow> json option) \<Rightarrow> (AgentsManifestV11 \<Rightarrow> AjvOutcome) \<Rightarrow> string
     \<Rightarrow> AgentsManifestBuildResult" where
  "buildAgentsManifestV11 clock jsonParse ajv agentsJsonRaw =
     (let trimmed = trim agentsJsonRaw
      in if trimmed = [] then \<lparr> amanifest = None, awarnings = [], aerrors = [NoAgents] \<rparr>
         else (case jsonParse trimmed of
                 None \<Rightarrow> \<lparr> amanifest = None, awarnings = [], aerrors = [AgentsJsonInvalid] \<rparr>
               | Some parsed \<Rightarrow>
                   (case collectAgents clock parsed of
                      (agents, warns, errs0) \<Rightarrow>
                        let errs = errs0 @ (if agents = [] then [NoAgents] else [])
                        in if errs \<noteq> [] then \<lparr> amanifest = None, awarnings = warns, aerrors = errs \<rparr>
                           else
                             let m = \<lparr> as_schemaVersion = ''1.1'', as_agents = agents \<rparr>;
                                 validation = validateAgentsManifestV11 ajv m
                             in if \<not> fst validation
                                then \<lparr> amanifest = None, awarnings = warns,
                                       aerrors = map SchemaViolation (snd validation) \<rparr>
                                else \<lparr> amanifest = Some m, awarnings = warns, aerrors = errs \<rparr>)))"

definition acceptAll :: "AgentsManifestV11 \<Rightarrow> AjvOutcome" where
  "acceptAll m = \<lparr> av_valid = True, av_errors = None \<rparr>"

subsection \<open>Ids given to the agents of a legacy array\<close>

lemma firstFree_exhausted:
  "(\<And>j. i \<le> j \<Longrightarrow> j < 1000 \<Longrightarrow> base @ ''-'' @ string_of_nat j \<in> set seen) \<Longrightarrow>
     firstFreeSuffix now base seen i = base @ ''-'' @ string_of_nat now"
proof (induction now base seen i rule: firstFreeSuffix.induct)
  case (1 now base seen i)
  show ?case
  proof (cases "i < 1000")
    case True
    with "1.prems" [of i] have t: "base @ ''-'' @ string_of_nat i \<in> set seen" by simp
    have "firstFreeSuffix now base seen (i + 1) = base @ ''-'' @ string_of_nat now"
      using True t "1.prems" by (intro "1.IH") auto
    with True t show ?thesis by (subst firstFreeSuffix.simps) simp
  next
    case False
    then show ?thesis by (subst firstFreeSuffix.simps) simp
  qed
qed

lemma firstFree_found:
  "i \<le> k \<Longrightarrow> k < 1000 \<Longrightarrow>
     (\<And>j. i \<le> j \<Longrightarrow> j < k \<Longrightarrow> base @ ''-'' @ string_of_nat j \<in> set seen) \<Longrightarrow>
     base @ ''-'' @ string_of_nat k \<notin> set seen \<Longrightarrow>
     firstFreeSuffix now base seen i = base @ ''-'' @ string_of_nat k"
proof (induction now base seen i rule: firstFreeSuffix.induct)
  case (1 now base seen i)
  from "1.prems"(1,2) have lt: "i < 1000" by simp
  show ?case
  proof (cases "i = k")
    case True
    with lt "1.prems"(4) show ?thesis by (subst firstFreeSuffix.simps) simp
  next
    case False
    with "1.prems"(1) have ik: "i < k" by simp
    with "1.prems"(3) [of i] have t: "base @ ''-'' @ string_of_nat i \<in> set seen" by simp
    have "firstFreeSuffix now base seen (i + 1) = base @ ''-'' @ string_of_nat k"
      using lt t ik "1.prems" by (intro "1.IH") auto
    with lt t show ?thesis by (subst firstFreeSuffix.simps) simp
  qed
qed

text \<open>\<open>base\<close> and its suffixed forms \<open>base-2\<close>, ..., \<open>base-k\<close> are all in use.\<close>

definition taken :: "string \<Rightarrow> string list \<Rightarrow> nat \<Rightarrow> bool" where
  "taken base seen k \<longleftrightarrow>
     base \<in> set seen \<and> (\<forall>j. 2 \<le> j \<and> j \<le> k \<longrightarrow> base @ ''-'' @ string_of_nat j \<in> set seen)"

lemma taken_mono: "taken base seen k \<Longrightarrow> taken base (List.insert x seen) k"
  by (auto simp: taken_def)

lemma unique_extends:
  assumes t: "taken (slugifyAgentId name) seen k" and k: "k < 999"
  shows "taken (slugifyAgentId name) (List.insert (uniqueAgentId now name seen) seen) (k + 1)"
proof -
  let ?b = "slugifyAgentId name"
  have new: "?b @ ''-'' @ string_of_nat (k + 1) \<in> set (List.insert (uniqueAgentId now name seen) seen)"
    if two: "2 \<le> k + 1"
  proof (cases "?b @ ''-'' @ string_of_nat (k + 1) \<in> set seen")
    case True
    then show ?thesis by simp
  next
    case False
    have "firstFreeSuffix now ?b seen 2 = ?b @ ''-'' @ string_of_nat (k + 1)"
      using two k t False by (intro firstFree_found) (auto simp: taken_def)
    with t show ?thesis by (simp add: uniqueAgentId_def taken_def)
  qed
  show ?thesis
    unfolding taken_def
  proof (intro conjI allI impI)
    from t show "?b \<in> set (List.insert (uniqueAgentId now name seen) seen)" by (simp add: taken_def)
  next
    fix j assume j: "2 \<le> j \<and> j \<le> k + 1"
    show "?b @ ''-'' @ string_of_nat j \<in> set (List.insert (uniqueAgentId now name seen) seen)"
    proof (cases "j = k + 1")
      case True
      with j new show ?thesis by simp
    next
      case False
      with j t show ?thesis by (simp add: taken_def)
    qed
  qed
qed

lemma unique_exhausted:
  assumes "taken (slugifyAgentId name) seen 999"
  shows "uniqueAgentId now name seen = slugifyAgentId name @ ''-'' @ string_of_nat now"
proof -
  have "firstFreeSuffix now (slugifyAgentId name) seen 2 = slugifyAgentId name @ ''-'' @ string_of_nat now"
    using assms by (intro firstFree_exhausted) (auto simp: taken_def)
  with assms show ?thesis by (simp add: uniqueAgentId_def taken_def)
qed

text \<open>A legacy array of \<open>n\<close> records that all have the name \<open>x\<close>.\<close>

definition sameName :: json where
  "sameName = JObj [(''name'', JStr ''x'')]"

definition legacyRun :: "(nat \<Rightarrow> nat) \<Rightarrow> nat \<Rightarrow> AgentV11 list \<times> string list" where
  "legacyRun clock n = fold (legacyStep clock) (enumerate 0 (replicate n sameName)) ([], [])"

lemma legacyStep_sameName:
  "legacyStep clock (k, sameName) (agents, seen)
     = (agents @ [legacyAgent (uniqueAgentId (clock k) ''x'' seen) ''x'' []],
        List.insert (uniqueAgentId (clock k) ''x'' seen) seen)"
proof -
  have "trim ''x'' = ''x''" by code_simp
  then show ?thesis by (simp add: legacyStep_def sameName_def normalizeString_def Let_def)
qed

lemma legacyRun_Suc: "legacyRun clock (Suc n) = legacyStep clock (n, sameName) (legacyRun clock n)"
proof -
  have "replicate (Suc n) sameName = replicate n sameName @ [sameName]"
    by (simp add: replicate_append_same)
  then show ?thesis by (simp add: legacyRun_def enumerate_append_eq del: replicate_Suc)
qed

lemma slugify_x: "slugifyAgentId ''x'' = ''x''"
  by code_simp

lemma legacyRun_taken: "1 \<le> n \<Longrightarrow> n \<le> 999 \<Longrightarrow> taken ''x'' (snd (legacyRun clock n)) n"
proof (induction n)
  case 0
  then show ?case by simp
next
  case (Suc n)
  obtain agents seen where r: "legacyRun clock n = (agents, seen)" by (cases "legacyRun clock n")
  show ?case
  proof (cases "n = 0")
    case True
    then have "legacyRun clock n = ([], [])" by (simp add: legacyRun_def)
    with True show ?thesis
      by (simp add: legacyRun_Suc legacyStep_sameName uniqueAgentId_def slugify_x taken_def)
  next
    case False
    with Suc r have t: "taken (slugifyAgentId ''x'') seen n" by (simp add: slugify_x)
    from Suc.prems have "n < 999" by simp
    from unique_extends [OF t this, of "clock n"] r show ?thesis
      by (simp add: legacyRun_Suc legacyStep_sameName slugify_x)
  qed
qed

text \<open>A record of the same name with a role of its own.\<close>

definition leadX :: json where
  "leadX = JObj [(''name'', JStr ''x''), (''role'', JStr ''lead'')]"

lemma legacyStep_leadX:
  "legacyStep clock (k, leadX) (agents, seen)
     = (agents @ [legacyAgent (uniqueAgentId (clock k) ''x'' seen) ''x'' ''lead''],
        List.insert (uniqueAgentId (clock k) ''x'' seen) seen)"
proof -
  have "trim ''x'' = ''x''" "trim ''lead'' = ''lead''" by code_simp+
  then show ?thesis by (simp add: legacyStep_def leadX_def normalizeString_def Let_def)
qed

lemma legacy_overflow:
  "fst (fold (legacyStep clock) (enumerate 0 (replicate 1000 sameName @ [leadX])) ([], []))
     = fst (legacyRun clock 999)
       @ [legacyAgent (''x-'' @ string_of_nat (clock 999)) ''x'' [],
          legacyAgent (''x-'' @ string_of_nat (clock 1000)) ''x'' ''lead'']"
proof -
  obtain agents seen where r: "legacyRun clock 999 = (agents, seen)" by (cases "legacyRun clock 999")
  have "taken ''x'' (snd (legacyRun clock 999)) 999" by (rule legacyRun_taken) simp_all
  with r have t: "taken (slugifyAgentId ''x'') seen 999" by (simp add: slugify_x)
  have u1: "uniqueAgentId (clock 999) ''x'' seen = ''x-'' @ string_of_nat (clock 999)"
    using unique_exhausted [OF t] by (simp add: slugify_x)
  let ?seen = "List.insert (''x-'' @ string_of_nat (clock 999)) seen"
  from t have "taken (slugifyAgentId ''x'') ?seen 999" by (rule taken_mono)
  from unique_exhausted [OF this]
  have u2: "uniqueAgentId (clock 1000) ''x'' ?seen = ''x-'' @ string_of_nat (clock 1000)"
    by (simp add: slugify_x)
  have "fold (legacyStep clock) (enumerate 0 (replicate 1000 sameName @ [leadX])) ([], [])
          = legacyStep clock (1000, leadX) (legacyRun clock 1000)"
    by (simp add: legacyRun_def enumerate_append_eq)
  also have "legacyRun clock 1000 = legacyStep clock (999, sameName) (legacyRun clock 999)"
    using legacyRun_Suc [of clock 999] by simp
  finally show ?thesis
    using r u1 u2 by (simp add: legacyStep_sameName legacyStep_leadX)
qed

text \<open>
  C9 at a failing input: a legacy array of 1001 records named \<open>x\<close>, the last one with
  a role of its own, with \<open>Date.now()\<close> giving the same value while the last two are
  processed. The suffixes 2 to 999 are exhausted and both records get the id made from
  the time stamp: the manifest is returned with two different agents of the same id.
\<close>

theorem C9_duplicate_ids:
  "(case amanifest (buildAgentsManifestV11 (\<lambda>k. 1700000000000)
                      (\<lambda>text. Some (JArr (replicate 1000 sameName @ [leadX]))) acceptAll ''[{name:x},...]'') of
      Some m \<Rightarrow> \<not> distinct (map ag_id (as_agents m))
                 \<and> (\<exists>others a b. as_agents m = others @ [a, b] \<and> ag_id a = ag_id b \<and> a \<noteq> b)
    | None \<Rightarrow> False)"
proof -
  let ?clock = "\<lambda>k::nat. 1700000000000::nat"
  let ?a = "legacyAgent (''x-'' @ string_of_nat 1700000000000) ''x'' []"
  let ?b = "legacyAgent (''x-'' @ string_of_nat 1700000000000) ''x'' ''lead''"
  let ?agents = "fst (legacyRun ?clock 999) @ [?a, ?b]"
  have t: "trim ''[{name:x},...]'' \<noteq> []" by code_simp
  have c: "collectAgents ?clock (JArr (replicate 1000 sameName @ [leadX])) = (?agents, [], [])"
    by (simp add: collectAgents_def legacy_overflow)
  have same: "ag_id ?a = ag_id ?b" by (simp add: legacyAgent_def)
  have diff: "?a \<noteq> ?b" by (simp add: legacyAgent_def)
  from same have nd: "\<not> distinct (map ag_id ?agents)" by simp
  from same diff have ex: "\<exists>others a b. ?agents = others @ [a, b] \<and> ag_id a = ag_id b \<and> a \<noteq> b" by blast
  have "amanifest (buildAgentsManifestV11 ?clock (\<lambda>text. Some (JArr (replicate 1000 sameName @ [leadX])))
          acceptAll ''[{name:x},...]'') = Some \<lparr> as_schemaVersion = ''1.1'', as_agents = ?agents \<rparr>"
    using t c by (simp add: buildAgentsManifestV11_def Let_def validateAgentsManifestV11_def acceptAll_def)
  with nd ex show ?thesis by simp
qed


subsection \<open>The ids given by \<open>uniqueAgentId\<close> match the id pattern\<close>

lemma replaceRuns_all:
  "list_all Q r \<Longrightarrow> (\<And>c. c \<in> set s \<Longrightarrow> \<not> P c \<Longrightarrow> Q c) \<Longrightarrow> list_all Q (replaceRuns P r s)"
proof (induction P r s rule: replaceRuns.induct)
  case (1 P r)
  show ?case by simp
next
  case (2 P r c cs)
  show ?case
  proof (cases "P c")
    case True
    have "list_all Q (replaceRuns P r (dropWhile P cs))"
      using True "2.prems" by (intro "2.IH"(1)) (auto dest: set_dropWhileD)
    with True "2.prems"(1) show ?thesis by simp
  next
    case False
    have "list_all Q (replaceRuns P r cs)"
      using False "2.prems" by (intro "2.IH"(2)) auto
    with False "2.prems"(2) [of c] show ?thesis by simp
  qed
qed

lemma isSlugChar_id: "isSlugChar c \<Longrightarrow> is_id_char c"
  by (auto simp: isSlugChar_def is_id_char_def is_alnum_def Let_def)

lemma digit_char: "k < 10 \<Longrightarrow> is_id_char (''0123456789'' ! k)"
proof -
  assume k: "k < 10"
  have d: "\<forall>c \<in> set ''0123456789''. is_id_char c" by code_simp
  have len: "length ''0123456789'' = 10" by simp
  from k have "k < length ''0123456789''" by (simp only: len)
  then have "''0123456789'' ! k \<in> set ''0123456789''" by (rule nth_mem)
  with d show ?thesis by (rule bspec)
qed

lemma digits_id: "list_all is_id_char (string_of_nat n)"
proof (induction n rule: string_of_nat.induct)
  case (1 n)
  have nth: "is_id_char (''0123456789'' ! k)" if "k < 10" for k
    using that by (rule digit_char)
  show ?case
  proof (cases "n < 10")
    case True
    with nth [of n] show ?thesis by (subst string_of_nat.simps) simp
  next
    case False
    have "n mod 10 < 10" by simp
    from nth [OF this] "1.IH" [OF False] False show ?thesis
      by (subst string_of_nat.simps) simp
  qed
qed

lemma pattern_append:
  "matches_id_pattern b \<Longrightarrow> list_all is_id_char t \<Longrightarrow> matches_id_pattern (b @ t)"
  by (cases b) auto

lemma slugify_pattern: "matches_id_pattern (slugifyAgentId input)"
proof -
  define t where "t = map toLower (trim input)"
  define c where "c = rev (dropWhile isDash (rev (dropWhile isDash
              (replaceRuns isDash ''-'' (replaceRuns (\<lambda>c. \<not> isSlugChar c) ''-'' t)))))"
  have s: "slugifyAgentId input =
             (if c = [] then ''agent''
              else if (let n = (of_char (hd c) :: nat) in (97 \<le> n \<and> n \<le> 122) \<or> (48 \<le> n \<and> n \<le> 57))
                   then c else ''agent-'' @ c)"
    unfolding slugifyAgentId_def Let_def c_def t_def by (rule refl)
  have dash: "list_all isSlugChar ''-''" by (simp add: isSlugChar_def)
  have a: "list_all isSlugChar (replaceRuns (\<lambda>c. \<not> isSlugChar c) ''-'' t)"
    by (rule replaceRuns_all [OF dash]) simp
  have b: "list_all isSlugChar (replaceRuns isDash ''-'' (replaceRuns (\<lambda>c. \<not> isSlugChar c) ''-'' t))"
    by (rule replaceRuns_all [OF dash]) (use a in \<open>simp add: list_all_iff\<close>)
  have "set c \<subseteq> set (replaceRuns isDash ''-'' (replaceRuns (\<lambda>c. \<not> isSlugChar c) ''-'' t))"
    unfolding c_def by (auto dest!: set_dropWhileD)
  with b have "list_all isSlugChar c" by (auto simp: list_all_iff)
  then have ids: "list_all is_id_char c" by (auto simp: list_all_iff isSlugChar_id)
  have agent: "matches_id_pattern ''agent''" "matches_id_pattern ''agent-''" by code_simp+
  show ?thesis
  proof (cases "c = []")
    case True
    with agent s show ?thesis by simp
  next
    case False
    then obtain h tl where ht: "c = h # tl" by (cases c) auto
    show ?thesis
    proof (cases "let n = (of_char (hd c) :: nat) in (97 \<le> n \<and> n \<le> 122) \<or> (48 \<le> n \<and> n \<le> 57)")
      case True
      with ht have "is_alnum h" by (auto simp: is_alnum_def Let_def)
      moreover from ids ht have "list_all is_id_char tl" by simp
      ultimately have "matches_id_pattern c" using ht by simp
      with True False s show ?thesis by simp
    next
      case no: False
      from pattern_append [OF agent(2) ids] no False s show ?thesis by simp
    qed
  qed
qed

lemma firstFree_form: "\<exists>n. firstFreeSuffix now base seen i = base @ ''-'' @ string_of_nat n"
proof (induction now base seen i rule: firstFreeSuffix.induct)
  case (1 now base seen i)
  show ?case
  proof (cases "i < 1000 \<and> base @ ''-'' @ string_of_nat i \<in> set seen")
    case True
    with "1.IH" show ?thesis by (subst firstFreeSuffix.simps) simp
  next
    case False
    then show ?thesis by (subst firstFreeSuffix.simps) auto
  qed
qed

lemma unique_pattern: "matches_id_pattern (uniqueAgentId now name seen)"
proof (cases "slugifyAgentId name \<in> set seen")
  case True
  obtain n where "firstFreeSuffix now (slugifyAgentId name) seen 2 = slugifyAgentId name @ ''-'' @ string_of_nat n"
    using firstFree_form by blast
  moreover have "list_all is_id_char (''-'' @ string_of_nat n)"
    using digits_id [of n] by (simp add: is_id_char_def)
  ultimately show ?thesis
    using True pattern_append [OF slugify_pattern, of "''-'' @ string_of_nat n" name]
    by (simp add: uniqueAgentId_def)
next
  case False
  then show ?thesis by (simp add: uniqueAgentId_def slugify_pattern)
qed

lemma legacyStep_ids:
  assumes "b \<in> set (fst (legacyStep clock p (agents, seen)))"
  shows "b \<in> set agents \<or> (\<exists>name. ag_id b = uniqueAgentId (clock (fst p)) name seen)"
proof (cases "objectFields (Some (snd p))")
  case None
  with assms show ?thesis by (simp add: legacyStep_def)
next
  case (Some obj)
  show ?thesis
  proof (cases "normalizeString (map_of obj ''name'') = []")
    case True
    with Some assms show ?thesis by (simp add: legacyStep_def)
  next
    case False
    with Some assms have "b \<in> set agents
        \<or> b = legacyAgent (uniqueAgentId (clock (fst p)) (normalizeString (map_of obj ''name'')) seen)
                (normalizeString (map_of obj ''name'')) (normalizeString (map_of obj ''role''))"
      by (auto simp: legacyStep_def Let_def)
    then show ?thesis by (auto simp: legacyAgent_def)
  qed
qed

lemma legacy_ids_pattern:
  assumes "\<And>a. a \<in> set (fst s) \<Longrightarrow> matches_id_pattern (ag_id a)"
  shows "a \<in> set (fst (fold (legacyStep clock) items s)) \<Longrightarrow> matches_id_pattern (ag_id a)"
  using assms
proof (induction items arbitrary: s)
  case Nil
  then show ?case by simp
next
  case (Cons p items)
  obtain agents seen where s: "s = (agents, seen)" by (cases s)
  have "\<And>b. b \<in> set (fst (legacyStep clock p s)) \<Longrightarrow> matches_id_pattern (ag_id b)"
  proof -
    fix b assume "b \<in> set (fst (legacyStep clock p s))"
    from legacyStep_ids [OF this [unfolded s]] Cons.prems(2) s show "matches_id_pattern (ag_id b)"
      by (auto simp: unique_pattern)
  qed
  from Cons.IH [OF _ this] Cons.prems(1) show ?case by simp
qed

subsection \<open>All or nothing, for the manifest builders\<close>






section \<open>Export assembler (bmad-zip-v11.ts)\<close>

text \<open>
  A file of the bundle is a text, bytes, or the JSON text of a compiled graph (kept as
  the graph it serializes).
\<close>

datatype file_content = TextFile string | BinaryFile "nat list" | GraphFile WorkflowGraphV11

record WorkflowDetailForExportV11 =
  wd_id :: int
  wd_name :: string
  wd_workflowMd :: string
  wd_graphJson :: string
  wd_stepFilesJson :: string

record ExportParams =
  xp_projectName :: string
  xp_bmadJson :: string
  xp_agentsJson :: string
  xp_workflows :: "WorkflowDetailForExportV11 list"
  xp_assets :: "(string \<times> file_content) list option"

datatype export_warning =
    SkippedAssetPath string
  | WorkflowWarning string graph_warning

datatype export_error =
    JsonEmpty string
  | JsonNotObject string
  | JsonInvalid string
  | EntryMissing
  | EntryPathsMissing
  | NoWorkflowsToExport
  | UnsafeAssetPath string
  | InvalidWorkflowId string string
  | MissingWorkflowMd string
  | StepFileNotString string string
  | StepKeyNotUnderSteps string string
  | StepKeyUnsafe string string
  | StepFileEmpty string string
  | GraphNodesEmpty string
  | GraphBuildFailed string "graph_error list"
  | NodeFileNotUnderSteps string string string
  | NodeFileUnsafe string string string
  | NodeStepFileMissing string string string
  | ZipStepFileMissing string string
  | UnknownAgentId string string string
  | EntryFileMissing string

record BmadExportFilesV11BuildResult =
  filename :: string
  filesByPath :: "(string \<times> file_content) list option"
  xerrors :: "export_error list"
  xwarnings :: "export_warning list"

definition startsWith :: "string \<Rightarrow> string \<Rightarrow> bool" where
  "startsWith s prefix \<longleftrightarrow> take (length prefix) s = prefix"

definition normalizeZipPath :: "string \<Rightarrow> string" where
  "normalizeZipPath input =
     (let slashed = map (\<lambda>c. if c = CHR 0x5C then CHR ''/'' else c) (trim input)
      in case slashed of
           a # b # rest \<Rightarrow>
             if a = CHR ''.'' \<and> b = CHR ''/'' then dropWhile (\<lambda>c. c = CHR ''/'') rest else slashed
         | _ \<Rightarrow> slashed)"

definition isSafeZipPath :: "string \<Rightarrow> bool" where
  "isSafeZipPath path \<longleftrightarrow>
     path \<noteq> [] \<and> \<not> startsWith path ''/'' \<and> CHR 0x00 \<notin> set path
     \<and> \<not> list_ex (\<lambda>part. part = ''..'' \<or> part = ''.'' \<or> part = []) (splitOn (CHR ''/'') path)"

definition isForbiddenInFilename :: "char \<Rightarrow> bool" where
  "isForbiddenInFilename c \<longleftrightarrow>
     c \<in> {CHR 0x5C, CHR ''/'', CHR '':'', CHR ''*'', CHR ''?'', CHR 0x22, CHR ''<'', CHR ''>'', CHR ''|''}"

definition sanitizeFilename :: "string \<Rightarrow> string" where
  "sanitizeFilename input =
     (let raw = (if trim input \<noteq> [] then trim input else ''Untitled'');
          cleaned = rev (dropWhile (\<lambda>c. c = CHR ''.'')
                      (rev (trim (replaceRuns is_space '' '' (replaceRuns isForbiddenInFilename ''-'' raw)))));
          base = (if cleaned \<noteq> [] then cleaned else ''Untitled'')
      in if length base > 120 then trim (take 120 base) else base)"

text \<open>
  \<open>parseJsonObject\<close> pushes an error and returns \<open>null\<close>, or returns the object: the model
  returns the error or the fields. \<open>jsonParse\<close> is \<open>JSON.parse\<close>, \<open>None\<close> when it throws.
\<close>

definition parseJsonObject :: "(string \<Rightarrow> json option) \<Rightarrow> string \<Rightarrow> string \<Rightarrow> export_error + (string \<times> json) list" where
  "parseJsonObject jsonParse raw label =
     (let trimmed = trim raw
      in if trimmed = [] then Inl (JsonEmpty label)
         else (case jsonParse trimmed of
                 None \<Rightarrow> Inl (JsonInvalid label)
               | Some v \<Rightarrow> (case v of JObj kvs \<Rightarrow> Inr kvs | _ \<Rightarrow> Inl (JsonNotObject label))))"

text \<open>The two per-workflow parsers return their result with the errors they push.\<close>

definition parseStepFilesJson ::
  "(string \<Rightarrow> json option) \<Rightarrow> string \<Rightarrow> string \<Rightarrow> (string \<times> string) list option \<times> export_error list" where
  "parseStepFilesJson jsonParse raw workflowLabel =
     (case parseJsonObject jsonParse raw (workflowLabel @ ''.stepFilesJson'') of
        Inl e \<Rightarrow> (None, [e])
      | Inr obj \<Rightarrow>
          (Some (fold (\<lambda>kv out. case snd kv of JStr s \<Rightarrow> AList.update (fst kv) s out | _ \<Rightarrow> out) obj []),
           List.map_filter
             (\<lambda>kv. case snd kv of JStr s \<Rightarrow> None | _ \<Rightarrow> Some (StepFileNotString workflowLabel (fst kv))) obj))"

text \<open>
  The cast of a parsed value to \<open>BuilderGraphNode\<close> and \<open>BuilderGraphEdge\<close>. The declared
  types make \<open>id\<close>, \<open>source\<close> and \<open>target\<close> strings; a value that has none is read as the
  empty string, which every path treats as the absent one.
\<close>

definition stringField :: "(string \<times> json) list option \<Rightarrow> string \<Rightarrow> string option" where
  "stringField obj k = (case field obj k of Some (JStr s) \<Rightarrow> Some s | _ \<Rightarrow> None)"

definition nodeOfJson :: "json \<Rightarrow> BuilderGraphNode" where
  "nodeOfJson v =
     (let obj = objectFields (Some v)
      in \<lparr> bn_id = (case stringField obj ''id'' of Some s \<Rightarrow> s | None \<Rightarrow> []),
           bn_type = field obj ''type'',
           bn_data =
             (case objectFields (field obj ''data'') of
                Some d \<Rightarrow> Some \<lparr> nd_title = map_of d ''title'', nd_agentId = map_of d ''agentId'',
                                nd_inputs = map_of d ''inputs'', nd_outputs = map_of d ''outputs'' \<rparr>
              | None \<Rightarrow> None) \<rparr>)"

definition edgeOfJson :: "json \<Rightarrow> BuilderGraphEdge" where
  "edgeOfJson v =
     (let obj = objectFields (Some v)
      in \<lparr> be_id = stringField obj ''id'',
           be_source = (case stringField obj ''source'' of Some s \<Rightarrow> s | None \<Rightarrow> []),
           be_target = (case stringField obj ''target'' of Some s \<Rightarrow> s | None \<Rightarrow> []),
           be_label = field obj ''label'',
           be_data =
             (case objectFields (field obj ''data'') of
                Some d \<Rightarrow> Some \<lparr> ed_isDefault = map_of d ''isDefault'',
                                ed_conditionText = map_of d ''conditionText'' \<rparr>
              | None \<Rightarrow> None) \<rparr>)"

definition parseBuilderGraphJson ::
  "(string \<Rightarrow> json option) \<Rightarrow> string \<Rightarrow> string
     \<Rightarrow> (BuilderGraphNode list \<times> BuilderGraphEdge list) option \<times> export_error list" where
  "parseBuilderGraphJson jsonParse raw workflowLabel =
     (case parseJsonObject jsonParse raw (workflowLabel @ ''.graphJson'') of
        Inl e \<Rightarrow> (None, [e])
      | Inr obj \<Rightarrow>
          let ns = (case arrayItems (map_of obj ''nodes'') of Some vs \<Rightarrow> vs | None \<Rightarrow> []);
              es = (case arrayItems (map_of obj ''edges'') of Some vs \<Rightarrow> vs | None \<Rightarrow> [])
          in if ns = [] then (None, [GraphNodesEmpty workflowLabel])
             else (Some (map nodeOfJson ns, map edgeOfJson es), []))"

definition extractEntryPaths :: "(string \<times> json) list \<Rightarrow> export_error + string \<times> string \<times> string" where
  "extractEntryPaths bmadJson =
     (case objectFields (map_of bmadJson ''entry'') of
        None \<Rightarrow> Inl EntryMissing
      | Some entryObj \<Rightarrow>
          let w = trimmed_string (map_of entryObj ''workflow'');
              g = trimmed_string (map_of entryObj ''graph'');
              a = trimmed_string (map_of entryObj ''agents'')
          in if w = [] \<or> g = [] \<or> a = [] then Inl EntryPathsMissing
             else Inr (w, g, a))"

text \<open>The set of agent ids collected from \<open>agents.json\<close>, as the list of its elements.\<close>

definition agentIds_of :: "(string \<times> json) list \<Rightarrow> string list" where
  "agentIds_of agentsObj =
     List.map_filter
       (\<lambda>a. case stringField (objectFields (Some a)) ''id'' of
               Some s \<Rightarrow> if trim s \<noteq> [] then Some s else None
             | None \<Rightarrow> None)
       (case arrayItems (map_of agentsObj ''agents'') of Some vs \<Rightarrow> vs | None \<Rightarrow> [])"

text \<open>The mutable state of the assembly: \<open>filesByPath\<close>, \<open>filePaths\<close>, \<open>errors\<close>, \<open>warnings\<close>.\<close>

record ExportState =
  st_files :: "(string \<times> file_content) list"
  st_paths :: "string list"
  st_errors :: "export_error list"
  st_warnings :: "export_warning list"

definition addFile :: "string \<Rightarrow> file_content \<Rightarrow> ExportState \<Rightarrow> ExportState" where
  "addFile path content st =
     st \<lparr> st_files := AList.update path content (st_files st), st_paths := List.insert path (st_paths st) \<rparr>"

definition addErrors :: "export_error list \<Rightarrow> ExportState \<Rightarrow> ExportState" where
  "addErrors es st = st \<lparr> st_errors := st_errors st @ es \<rparr>"

definition assetStep :: "string \<times> file_content \<Rightarrow> ExportState \<Rightarrow> ExportState" where
  "assetStep a st =
     (let normalized = normalizeZipPath (fst a)
      in if \<not> startsWith normalized ''assets/''
         then st \<lparr> st_warnings := st_warnings st @ [SkippedAssetPath normalized] \<rparr>
         else if \<not> isSafeZipPath normalized then addErrors [UnsafeAssetPath normalized] st
         else addFile normalized (snd a) st)"

definition workflowLabel_of :: "WorkflowDetailForExportV11 \<Rightarrow> string" where
  "workflowLabel_of w =
     ''workflow('' @ (if wd_name w \<noteq> [] then wd_name w else trim (string_of_int (wd_id w)))
       @ '',ID:'' @ string_of_int (wd_id w) @ '')''"

text \<open>The loop that fills \<open>stepFilesNormalized\<close>, with the errors it pushes.\<close>

definition stepKeyProblem :: "string \<Rightarrow> string \<times> string \<Rightarrow> export_error option" where
  "stepKeyProblem label kv =
     (let key = normalizeZipPath (fst kv)
      in if \<not> startsWith key ''steps/'' then Some (StepKeyNotUnderSteps label key)
         else if \<not> isSafeZipPath key then Some (StepKeyUnsafe label key)
         else if trim (snd kv) = [] then Some (StepFileEmpty label key)
         else None)"

definition normalizeStepFiles :: "string \<Rightarrow> (string \<times> string) list \<Rightarrow> (string \<times> string) list \<times> export_error list" where
  "normalizeStepFiles label stepFiles =
     (fold (\<lambda>kv out. if stepKeyProblem label kv = None
                      then AList.update (normalizeZipPath (fst kv)) (snd kv) out else out) stepFiles [],
      List.map_filter (stepKeyProblem label) stepFiles)"

text \<open>The body of \<open>graphBuild.graph.nodes.map\<close>: the errors it pushes and the rewritten node.\<close>

definition checkNode ::
  "string \<Rightarrow> string \<Rightarrow> (string \<times> string) list \<Rightarrow> string list \<Rightarrow> string list \<Rightarrow> WorkflowGraphV11Node
     \<Rightarrow> export_error list \<times> WorkflowGraphV11Node" where
  "checkNode label workflowId stepFilesNormalized stepFullPaths agentIds node =
     (let file = normalizeZipPath (gn_file node);
          full = ''workflows/'' @ workflowId @ ''/'' @ file;
          fileErrors =
            (if \<not> startsWith file ''steps/'' then [NodeFileNotUnderSteps label (gn_id node) file]
             else if \<not> isSafeZipPath file then [NodeFileUnsafe label (gn_id node) file]
             else if get_or [] stepFilesNormalized file = [] then [NodeStepFileMissing label file (gn_id node)]
             else if full \<notin> set stepFullPaths then [ZipStepFileMissing label full]
             else []);
          agentId = (case gn_agentId node of Some a \<Rightarrow> trim a | None \<Rightarrow> []);
          agentErrors =
            (if agentId \<noteq> [] \<and> agentId \<notin> set agentIds then [UnknownAgentId label agentId (gn_id node)] else [])
      in (fileErrors @ agentErrors, node \<lparr> gn_file := full \<rparr>))"

text \<open>The body of the loop over the workflows.\<close>

definition workflowStep ::
  "(string \<Rightarrow> string \<Rightarrow> bool) \<Rightarrow> (string \<Rightarrow> json option) \<Rightarrow> string list \<Rightarrow> WorkflowDetailForExportV11
     \<Rightarrow> ExportState \<Rightarrow> ExportState" where
  "workflowStep lc jsonParse agentIds w st =
     (let workflowId = trim (string_of_int (wd_id w));
          label = workflowLabel_of w
      in if workflowId = [] \<or> \<not> matches_id_pattern workflowId
         then addErrors [InvalidWorkflowId label workflowId] st
         else if trim (wd_workflowMd w) = [] then addErrors [MissingWorkflowMd label] st
         else
           let st1 = addFile (''workflows/'' @ workflowId @ ''/workflow.md'') (TextFile (wd_workflowMd w)) st;
               stepFiles = parseStepFilesJson jsonParse (wd_stepFilesJson w) label;
               graphPayload = parseBuilderGraphJson jsonParse (wd_graphJson w) label;
               st2 = addErrors (snd stepFiles @ snd graphPayload) st1
           in (case (fst stepFiles, fst graphPayload) of
                 (Some files, Some (ns, es)) \<Rightarrow>
                   let normalized = normalizeStepFiles label files;
                       stepFilesNormalized = fst normalized;
                       stepFullPaths = map (\<lambda>kv. ''workflows/'' @ workflowId @ ''/'' @ fst kv) stepFilesNormalized;
                       st3 = fold (\<lambda>kv. addFile (''workflows/'' @ workflowId @ ''/'' @ fst kv) (TextFile (snd kv)))
                               stepFilesNormalized (addErrors (snd normalized) st2);
                       graphBuild = buildWorkflowGraphV11 lc ns es
                   in (case graph graphBuild of
                         None \<Rightarrow> addErrors [GraphBuildFailed label (errors graphBuild)] st3
                       | Some g \<Rightarrow>
                           let st4 = st3 \<lparr> st_warnings := st_warnings st3
                                                 @ map (WorkflowWarning label) (warnings graphBuild) \<rparr>;
                               checked = map (checkNode label workflowId stepFilesNormalized stepFullPaths agentIds)
                                           (nodes g);
                               exportedGraph = g \<lparr> nodes := map snd checked \<rparr>
                           in addFile (''workflows/'' @ workflowId @ ''/workflow.graph.json'')
                                (GraphFile exportedGraph) (addErrors (concat (map fst checked)) st4))
               | _ \<Rightarrow> st2))"

text \<open>
  The part of \<open>buildBmadExportFilesV11\<close> before the files are collected: the errors of
  an early return, or the parsed agent manifest with the entry paths.
\<close>

definition exportPreamble ::
  "(string \<Rightarrow> json option) \<Rightarrow> ExportParams \<Rightarrow> export_error list + (string \<times> json) list \<times> (string \<times> string \<times> string)" where
  "exportPreamble jsonParse params =
     (let bmad = parseJsonObject jsonParse (xp_bmadJson params) ''bmad.json'';
          agents = parseJsonObject jsonParse (xp_agentsJson params) ''agents.json''
      in case (bmad, agents) of
           (Inr bmadObj, Inr agentsObj) \<Rightarrow>
             (case extractEntryPaths bmadObj of
                Inl e \<Rightarrow> Inl [e]
              | Inr entryPaths \<Rightarrow>
                  if xp_workflows params = [] then Inl [NoWorkflowsToExport] else Inr (agentsObj, entryPaths))
         | (Inl e, Inr agentsObj) \<Rightarrow> Inl [e]
         | (Inr bmadObj, Inl e) \<Rightarrow> Inl [e]
         | (Inl e1, Inl e2) \<Rightarrow> Inl [e1, e2])"

definition collectFiles ::
  "(string \<Rightarrow> string \<Rightarrow> bool) \<Rightarrow> (string \<Rightarrow> json option) \<Rightarrow> ExportParams \<Rightarrow> string list \<Rightarrow> ExportState" where
  "collectFiles lc jsonParse params agentIds =
     (let st0 = addFile ''agents.json'' (TextFile (xp_agentsJson params))
                  (addFile ''bmad.json'' (TextFile (xp_bmadJson params))
                     \<lparr> st_files = [], st_paths = [], st_errors = [], st_warnings = [] \<rparr>);
          st1 = (case xp_assets params of Some assets \<Rightarrow> fold assetStep assets st0 | None \<Rightarrow> st0)
      in fold (workflowStep lc jsonParse agentIds) (xp_workflows params) st1)"

definition buildBmadExportFilesV11 ::
  "(string \<Rightarrow> string \<Rightarrow> bool) \<Rightarrow> (string \<Rightarrow> json option) \<Rightarrow> ExportParams \<Rightarrow> BmadExportFilesV11BuildResult" where
  "buildBmadExportFilesV11 lc jsonParse params =
     (let name = sanitizeFilename (trim (xp_projectName params)) @ ''.bmad''
      in case exportPreamble jsonParse params of
           Inl errs \<Rightarrow> \<lparr> filename = name, filesByPath = None, xerrors = errs, xwarnings = [] \<rparr>
         | Inr (agentsObj, entryPaths) \<Rightarrow>
             let st = collectFiles lc jsonParse params (agentIds_of agentsObj)
             in if st_errors st \<noteq> []
                then \<lparr> filename = name, filesByPath = None, xerrors = st_errors st, xwarnings = st_warnings st \<rparr>
                else
                  let expected = (case entryPaths of (w, g, a) \<Rightarrow> map normalizeZipPath [w, g, a]);
                      missing = map EntryFileMissing (filter (\<lambda>path. path \<notin> set (st_paths st)) expected)
                  in if missing \<noteq> []
                     then \<lparr> filename = name, filesByPath = None, xerrors = missing, xwarnings = st_warnings st \<rparr>
                     else \<lparr> filename = name, filesByPath = Some (st_files st), xerrors = [],
                            xwarnings = st_warnings st \<rparr>)"


subsection \<open>Errors only accumulate during the assembly\<close>

lemma errors_addFile [simp]: "st_errors (addFile path content st) = st_errors st"
  by (simp add: addFile_def)

lemma errors_addErrors [simp]: "st_errors (addErrors es st) = st_errors st @ es"
  by (simp add: addErrors_def)

lemma errors_addFiles [simp]: "st_errors (fold (\<lambda>kv. addFile (f kv) (h kv)) xs st) = st_errors st"
  by (induction xs arbitrary: st) simp_all

text \<open>
  The graph that the loop body compiles for a workflow, when the workflow passes the
  checks made before the compilation.
\<close>

definition compiledGraph ::
  "(string \<Rightarrow> string \<Rightarrow> bool) \<Rightarrow> (string \<Rightarrow> json option) \<Rightarrow> WorkflowDetailForExportV11 \<Rightarrow> WorkflowGraphV11 option" where
  "compiledGraph lc jsonParse w =
     (let workflowId = trim (string_of_int (wd_id w));
          label = workflowLabel_of w
      in if workflowId = [] \<or> \<not> matches_id_pattern workflowId \<or> trim (wd_workflowMd w) = [] then None
         else (case (fst (parseStepFilesJson jsonParse (wd_stepFilesJson w) label),
                     fst (parseBuilderGraphJson jsonParse (wd_graphJson w) label)) of
                 (Some files, Some (ns, es)) \<Rightarrow> graph (buildWorkflowGraphV11 lc ns es)
               | _ \<Rightarrow> None))"

lemma workflowStep_errors:
  "\<exists>es. st_errors (workflowStep lc jsonParse agentIds w st) = st_errors st @ es"
  by (simp add: workflowStep_def Let_def split: option.splits prod.splits)

lemma workflowStep_mono:
  "set (st_errors st) \<subseteq> set (st_errors (workflowStep lc jsonParse agentIds w st))"
proof -
  obtain es where "st_errors (workflowStep lc jsonParse agentIds w st) = st_errors st @ es"
    using workflowStep_errors by blast
  then show ?thesis by simp
qed

lemma workflows_mono:
  "set (st_errors st) \<subseteq> set (st_errors (fold (workflowStep lc jsonParse agentIds) ws st))"
proof (induction ws arbitrary: st)
  case Nil
  show ?case by simp
next
  case (Cons w ws)
  have "set (st_errors st) \<subseteq> set (st_errors (workflowStep lc jsonParse agentIds w st))"
    by (rule workflowStep_mono)
  also have "\<dots> \<subseteq> set (st_errors (fold (workflowStep lc jsonParse agentIds) ws
                        (workflowStep lc jsonParse agentIds w st)))"
    by (rule Cons.IH)
  finally show ?case by simp
qed

lemma checkNode_agent:
  assumes "gn_agentId node = Some a" and "trim a \<noteq> []" and "trim a \<notin> set agentIds"
  shows "UnknownAgentId label (trim a) (gn_id node)
           \<in> set (fst (checkNode label workflowId files paths agentIds node))"
  using assms by (simp add: checkNode_def Let_def)

lemma workflowStep_agent:
  assumes g: "compiledGraph lc jsonParse w = Some g"
    and n: "node \<in> set (nodes g)"
    and a: "gn_agentId node = Some a" "trim a \<noteq> []" "trim a \<notin> set agentIds"
  shows "UnknownAgentId (workflowLabel_of w) (trim a) (gn_id node)
           \<in> set (st_errors (workflowStep lc jsonParse agentIds w st))"
proof -
  let ?id = "trim (string_of_int (wd_id w))"
  let ?label = "workflowLabel_of w"
  from g have ok: "?id \<noteq> []" "matches_id_pattern ?id" "trim (wd_workflowMd w) \<noteq> []"
    by (auto simp: compiledGraph_def Let_def split: if_splits)
  from g ok obtain files ns es where
    sf: "fst (parseStepFilesJson jsonParse (wd_stepFilesJson w) ?label) = Some files"
    and gp: "fst (parseBuilderGraphJson jsonParse (wd_graphJson w) ?label) = Some (ns, es)"
    and gr: "graph (buildWorkflowGraphV11 lc ns es) = Some g"
    by (auto simp: compiledGraph_def Let_def split: option.splits prod.splits)
  have "UnknownAgentId ?label (trim a) (gn_id node)
          \<in> set (fst (checkNode ?label ?id files' paths agentIds node))" for files' paths
    using a by (rule checkNode_agent)
  with n have "UnknownAgentId ?label (trim a) (gn_id node)
          \<in> set (concat (map fst (map (checkNode ?label ?id files' paths agentIds) (nodes g))))"
    for files' paths
    by auto
  then show ?thesis
    using ok sf gp gr by (simp add: workflowStep_def Let_def)
qed

lemma workflows_agent:
  assumes w: "w \<in> set ws"
    and g: "compiledGraph lc jsonParse w = Some g"
    and n: "node \<in> set (nodes g)"
    and a: "gn_agentId node = Some a" "trim a \<noteq> []" "trim a \<notin> set agentIds"
  shows "UnknownAgentId (workflowLabel_of w) (trim a) (gn_id node)
           \<in> set (st_errors (fold (workflowStep lc jsonParse agentIds) ws st))"
proof -
  from w obtain pre post where ws: "ws = pre @ w # post" by (auto simp: in_set_conv_decomp)
  let ?st = "fold (workflowStep lc jsonParse agentIds) pre st"
  have "UnknownAgentId (workflowLabel_of w) (trim a) (gn_id node)
          \<in> set (st_errors (workflowStep lc jsonParse agentIds w ?st))"
    using g n a by (rule workflowStep_agent)
  moreover have "set (st_errors (workflowStep lc jsonParse agentIds w ?st))
          \<subseteq> set (st_errors (fold (workflowStep lc jsonParse agentIds) post
                   (workflowStep lc jsonParse agentIds w ?st)))"
    by (rule workflows_mono)
  ultimately show ?thesis by (auto simp: ws)
qed

subsection \<open>The agent id of a compiled node is trimmed\<close>

lemma trim_fixed:
  assumes "s \<noteq> [] \<longrightarrow> \<not> is_space (hd s) \<and> \<not> is_space (last s)"
  shows "trim s = s"
proof (cases "s = []")
  case True
  then show ?thesis by (simp add: trim_def)
next
  case False
  with assms have h: "\<not> is_space (hd s)" and l: "\<not> is_space (last s)" by simp_all
  from False h have "dropWhile is_space s = s" by (cases s) simp_all
  moreover from False l have "dropWhile is_space (rev s) = rev s"
    by (cases "rev s") (simp_all add: last_rev [symmetric] hd_rev)
  ultimately show ?thesis by (simp add: trim_def)
qed

lemma trim_ends:
  assumes "trim s \<noteq> []"
  shows "\<not> is_space (hd (trim s)) \<and> \<not> is_space (last (trim s))"
proof -
  let ?t = "dropWhile is_space s"
  let ?u = "dropWhile is_space (rev ?t)"
  from assms have u: "?u \<noteq> []" by (simp add: trim_def)
  have t: "?t \<noteq> []"
  proof
    assume "?t = []"
    then have "?u = dropWhile is_space (rev [])" by (rule arg_cong)
    then have "?u = []" by (simp only: rev.simps dropWhile.simps)
    with u show False by simp
  qed
  have "\<not> is_space (hd ?u)" using u by (rule hd_dropWhile)
  then have l: "\<not> is_space (last (trim s))" using u by (simp add: trim_def last_rev)
  have "\<not> is_space (hd ?t)" using t by (rule hd_dropWhile)
  moreover have "last ?u = last (rev ?t)"
  proof -
    have "rev ?t = takeWhile is_space (rev ?t) @ ?u" by simp
    then have "last (rev ?t) = last (takeWhile is_space (rev ?t) @ ?u)" by simp
    also have "\<dots> = last ?u" using u by (rule last_appendR)
    finally show ?thesis by simp
  qed
  ultimately have "\<not> is_space (hd (trim s))" using u t by (simp add: trim_def hd_rev last_rev)
  with l show ?thesis by simp
qed

lemma trim_trim: "trim (trim s) = trim s"
  by (rule trim_fixed) (simp add: trim_ends)

lemma mapNode_agentId: "gn_agentId (mapNode m i) = Some a \<Longrightarrow> a \<noteq> [] \<and> trim a = a"
proof -
  assume h: "gn_agentId (mapNode m i) = Some a"
  let ?raw = "Option.bind (Option.bind (map_of m i) bn_data) nd_agentId"
  from h have a: "a = trimmed_string ?raw" and ne: "a \<noteq> []"
    by (auto simp: mapNode_def Let_def split: if_splits)
  from ne a obtain s where "?raw = Some (JStr s)"
    by (cases ?raw rule: trimmed_string.cases) simp_all
  with a have "a = trim s" by simp
  with ne show ?thesis by (simp add: trim_trim)
qed

lemma compiled_agentId:
  assumes "graph (buildWorkflowGraphV11 lc ns es) = Some g" and "node \<in> set (nodes g)"
    and "gn_agentId node = Some a"
  shows "a \<noteq> [] \<and> trim a = a"
proof -
  from assms(1) have "nodes g = map (mapNode (nodesById_of ns)) (stable_sort lc (map fst (nodesById_of ns)))"
    by (simp add: build_Some)
  with assms(2) obtain i where "node = mapNode (nodesById_of ns) i" by auto
  with assms(3) show ?thesis by (simp add: mapNode_agentId)
qed

lemma compiledGraph_agentId:
  assumes "compiledGraph lc jsonParse w = Some g" and "node \<in> set (nodes g)"
    and "gn_agentId node = Some a"
  shows "a \<noteq> [] \<and> trim a = a"
proof -
  from assms(1) obtain ns es where "graph (buildWorkflowGraphV11 lc ns es) = Some g"
    by (auto simp: compiledGraph_def Let_def split: if_splits option.splits prod.splits)
  then show ?thesis using assms(2,3) by (rule compiled_agentId)
qed


subsection \<open>A bundle to assemble\<close>

text \<open>
  The JSON texts of the example are named, and \<open>sampleJson\<close> gives the value each one
  parses to: a package manifest, an agent manifest with the agent \<open>dev\<close>, the step files
  of one step, and two graphs of one node, assigned to \<open>ghost\<close> and to \<open>dev\<close>.
\<close>

definition oneNodeGraph :: "string \<Rightarrow> json" where
  "oneNodeGraph agent =
     JObj [(''nodes'', JArr [JObj [(''id'', JStr ''step-1''), (''data'', JObj [(''agentId'', JStr agent)])]]),
           (''edges'', JArr [])]"

definition sampleAgents :: "(string \<times> json) list" where
  "sampleAgents = [(''agents'', JArr [JObj [(''id'', JStr ''dev'')]])]"

definition sampleJson :: "string \<Rightarrow> json option" where
  "sampleJson text =
     map_of
       [(''BMAD'', JObj [(''entry'', JObj [(''workflow'', JStr ''workflows/1/workflow.md''),
                                          (''graph'', JStr ''workflows/1/workflow.graph.json''),
                                          (''agents'', JStr ''agents.json'')])]),
        (''AGENTS'', JObj sampleAgents),
        (''STEPS'', JObj [(''steps/step-1.md'', JStr ''# Step 1'')]),
        (''GHOST'', oneNodeGraph ''ghost''),
        (''GRAPH'', oneNodeGraph ''dev'')] text"

definition sampleWorkflow :: "string \<Rightarrow> WorkflowDetailForExportV11" where
  "sampleWorkflow graphText =
     \<lparr> wd_id = 1, wd_name = ''Main'', wd_workflowMd = ''# Main'', wd_graphJson = graphText,
       wd_stepFilesJson = ''STEPS'' \<rparr>"

definition sampleParams :: "string \<Rightarrow> ExportParams" where
  "sampleParams graphText =
     \<lparr> xp_projectName = ''Demo'', xp_bmadJson = ''BMAD'', xp_agentsJson = ''AGENTS'',
       xp_workflows = [sampleWorkflow graphText], xp_assets = None \<rparr>"

definition ghostNode :: WorkflowGraphV11Node where
  "ghostNode = \<lparr> gn_id = ''step-1'', gn_type = Step, gn_file = ''steps/step-1.md'', gn_title = None,
                 gn_agentId = Some ''ghost'', gn_inputs = None, gn_outputs = None \<rparr>"

definition ghostGraph :: WorkflowGraphV11 where
  "ghostGraph = \<lparr> schemaVersion = ''1.1'', entryNodeId = ''step-1'', nodes = [ghostNode], edges = [] \<rparr>"

subsection \<open>A node assigned to an unknown agent\<close>



text \<open>
  C6: when the assembly reaches the loop over the workflows, every node of a graph
  compiled there whose agentId (present only when non-empty) is not among the ids
  collected from the agents array of agents.json gives an error that names the
  workflow, that agentId and the node id; the result then has filesByPath null.
\<close>

theorem C6_unknown_agent:
  assumes pre: "exportPreamble jsonParse params = Inr (agentsObj, entryPaths)"
    and w: "w \<in> set (xp_workflows params)"
    and g: "compiledGraph lc jsonParse w = Some g"
    and n: "node \<in> set (nodes g)"
    and a: "gn_agentId node = Some agentId"
    and u: "agentId \<notin> set (agentIds_of agentsObj)"
  shows "UnknownAgentId (workflowLabel_of w) agentId (gn_id node)
           \<in> set (xerrors (buildBmadExportFilesV11 lc jsonParse params))
         \<and> filesByPath (buildBmadExportFilesV11 lc jsonParse params) = None"
proof -
  let ?st = "collectFiles lc jsonParse params (agentIds_of agentsObj)"
  from g n a have t: "agentId \<noteq> [] \<and> trim agentId = agentId" by (rule compiledGraph_agentId)
  with u have "trim agentId \<noteq> []" "trim agentId \<notin> set (agentIds_of agentsObj)" by simp_all
  with w g n a have "UnknownAgentId (workflowLabel_of w) (trim agentId) (gn_id node) \<in> set (st_errors ?st)"
    unfolding collectFiles_def Let_def by (rule workflows_agent)
  with t have e: "UnknownAgentId (workflowLabel_of w) agentId (gn_id node) \<in> set (st_errors ?st)" by simp
  then have ne: "st_errors ?st \<noteq> []" by auto
  from pre ne have "buildBmadExportFilesV11 lc jsonParse params
      = \<lparr> filename = sanitizeFilename (trim (xp_projectName params)) @ ''.bmad'', filesByPath = None,
          xerrors = st_errors ?st, xwarnings = st_warnings ?st \<rparr>"
    by (simp add: buildBmadExportFilesV11_def Let_def)
  with e show ?thesis by simp
qed

theorem C6_unknown_agent_witness:
  "exportPreamble sampleJson (sampleParams ''GHOST'')
     = Inr (sampleAgents, ''workflows/1/workflow.md'', ''workflows/1/workflow.graph.json'', ''agents.json'')
   \<and> compiledGraph codeUnitLe sampleJson (sampleWorkflow ''GHOST'') = Some ghostGraph
   \<and> agentIds_of sampleAgents = [''dev'']
   \<and> UnknownAgentId ''workflow(Main,ID:1)'' ''ghost'' ''step-1''
        \<in> set (xerrors (buildBmadExportFilesV11 codeUnitLe sampleJson (sampleParams ''GHOST'')))
   \<and> filesByPath (buildBmadExportFilesV11 codeUnitLe sampleJson (sampleParams ''GHOST'')) = None"
proof -
  have pre: "exportPreamble sampleJson (sampleParams ''GHOST'')
     = Inr (sampleAgents, ''workflows/1/workflow.md'', ''workflows/1/workflow.graph.json'', ''agents.json'')"
    by code_simp
  have w: "sampleWorkflow ''GHOST'' \<in> set (xp_workflows (sampleParams ''GHOST''))"
    by (simp add: sampleParams_def)
  have g: "compiledGraph codeUnitLe sampleJson (sampleWorkflow ''GHOST'') = Some ghostGraph"
    by code_simp
  have n: "ghostNode \<in> set (nodes ghostGraph)"
    by (simp add: ghostGraph_def)
  have a: "gn_agentId ghostNode = Some ''ghost''"
    by (simp add: ghostNode_def)
  have ids: "agentIds_of sampleAgents = [''dev'']"
    by code_simp
  then have u: "''ghost'' \<notin> set (agentIds_of sampleAgents)"
    by simp
  have l: "workflowLabel_of (sampleWorkflow ''GHOST'') = ''workflow(Main,ID:1)''"
    by code_simp
  have i: "gn_id ghostNode = ''step-1''"
    by (simp add: ghostNode_def)
  note r = C6_unknown_agent [OF pre w g n a u]
  from r [THEN conjunct1] have e: "UnknownAgentId ''workflow(Main,ID:1)'' ''ghost'' ''step-1''
        \<in> set (xerrors (buildBmadExportFilesV11 codeUnitLe sampleJson (sampleParams ''GHOST'')))"
    by (simp only: l i)
  from pre g ids e r [THEN conjunct2] show ?thesis by (intro conjI)
qed


subsection \<open>The files of a bundle that is returned\<close>



lemma files_addErrors [simp]: "st_files (addErrors es st) = st_files st"
  by (simp add: addErrors_def)

lemma keys_addFile [simp]:
  "fst ` set (st_files (addFile path content st)) = insert path (fst ` set (st_files st))"
  by (simp add: addFile_def dom_update)













subsection \<open>All or nothing\<close>




end
